theory Spec2Isabelle
  imports Main "HOL-Library.Word" "HOL-Library.Multiset"
begin

text \<open>
  A model of three parts of the concore task library and the properties its description
  states about them: the concurrent deque of \<^verbatim>\<open>low_level/concurrent_dequeue.hpp\<close> with
  its bounded fast ring, the functions of \<^verbatim>\<open>spawn.hpp\<close>, and the reader-writer
  serializer declared in \<^verbatim>\<open>rw_serializer.hpp\<close>. The definitions come first and follow
  the C++ statement by statement; the properties come after them.
\<close>

section \<open>Atomic compare-and-exchange\<close>

text \<open>
  The index operations of the fast ring are retry loops around
  \<^verbatim>\<open>compare_exchange_weak\<close> on one atomic cell. What the other threads do to the cell
  between two attempts of the loop is made explicit as a finite list of events, one per
  attempt: \<open>Store v\<close> says that the cell holds \<open>v\<close> when the attempt is made,
  \<open>Spurious\<close> that the weak exchange fails although nothing changed. Once the list is
  used up the loop runs alone. An exchange returns whether it succeeded, the remaining
  events, the new content of the cell and the new content of the caller's \<open>expected\<close>
  variable (C++ writes the observed value back into it on failure).
\<close>

datatype 'v cas_event = Spurious | Store 'v

fun compare_exchange_weak ::
  "'v cas_event list \<Rightarrow> 'v \<Rightarrow> 'v \<Rightarrow> 'v \<Rightarrow> bool \<times> 'v cas_event list \<times> 'v \<times> 'v" where
  "compare_exchange_weak [] mem expected desired =
     (if mem = expected then (True, [], desired, expected) else (False, [], mem, mem))"
| "compare_exchange_weak (Spurious # env) mem expected desired = (False, env, mem, mem)"
| "compare_exchange_weak (Store v # env) mem expected desired =
     (if v = expected then (True, env, desired, expected) else (False, env, v, v))"

definition compare_exchange_strong :: "'v \<Rightarrow> 'v \<Rightarrow> 'v \<Rightarrow> bool \<times> 'v \<times> 'v" where
  "compare_exchange_strong mem expected desired =
     (if mem = expected then (True, desired, expected) else (False, mem, mem))"

section \<open>The bounded fast ring: \<^verbatim>\<open>detail::bounded_dequeue\<close>\<close>

datatype item_state = freed | constructing | valid | destructing

text \<open>
  C++ names end in an underscore, which a HOL constant cannot; the fields carry a prime
  instead: \<open>state'\<close> is \<^verbatim>\<open>state_\<close>, \<open>size'\<close> is \<^verbatim>\<open>size_\<close>, and so on.
\<close>

record 'a wrapped_elem =
  state' :: item_state
  elem' :: 'a

text \<open>
  The union \<^verbatim>\<open>fast_range\<close> overlays the 32-bit value held in the atomic with two 16-bit
  indices. It is modelled by its storage, the 32-bit value, and the two members are views
  of it; \<open>start\<close> is the first member and so the low half on a little-endian machine.
  \<open>pair s e\<close> is the union whose members are \<open>s\<close> and \<open>e\<close>; \<open>set_start\<close> and
  \<open>set_end\<close> are assignments to a member.
\<close>

type_synonym fast_range = "32 word"

definition start :: "fast_range \<Rightarrow> 16 word" where
  "start r = ucast r"

definition end' :: "fast_range \<Rightarrow> 16 word" where
  "end' r = ucast (drop_bit 16 r)"

definition pair :: "16 word \<Rightarrow> 16 word \<Rightarrow> fast_range" where
  "pair s e = or (ucast s) (push_bit 16 (ucast e))"

definition set_start :: "fast_range \<Rightarrow> 16 word \<Rightarrow> fast_range" where
  "set_start r s = or (push_bit 16 (drop_bit 16 r)) (ucast s)"

definition set_end :: "fast_range \<Rightarrow> 16 word \<Rightarrow> fast_range" where
  "set_end r e = or (take_bit 16 r) (push_bit 16 (ucast e))"

record 'a bounded_dequeue =
  size' :: "16 word"
  circular_buffer' :: "'a wrapped_elem list"
  fast_range' :: "32 word"

text \<open>
  The constructor: \<open>expected_size\<close> is a \<^verbatim>\<open>size_t\<close>, truncated to 16 bits for \<open>size'\<close> but
  not for the vector; \<open>t0\<close> is the value-initialised \<^verbatim>\<open>T\<close> that fills the vector.
\<close>

definition bounded_dequeue :: "'a \<Rightarrow> nat \<Rightarrow> 'a bounded_dequeue" where
  "bounded_dequeue t0 expected_size =
     \<lparr>size' = of_nat expected_size,
      circular_buffer' = replicate expected_size \<lparr>state' = freed, elem' = t0\<rparr>,
      fast_range' = 0\<rparr>"

subsection \<open>Index reservation and consumption\<close>

text \<open>
  Each loop takes the limit, the events of the other threads, the content of the atomic
  and the local \<open>old\<close>; it returns the content of the atomic when it leaves and the
  position it yields, \<open>None\<close> standing for the return value \<^verbatim>\<open>false\<close>.
\<close>

function reserve_back_loop ::
  "16 word \<Rightarrow> 32 word cas_event list \<Rightarrow> 32 word \<Rightarrow> fast_range \<Rightarrow> 32 word \<times> 16 word option" where
  "reserve_back_loop max_dist env mem old =
     (if end' old - start old > max_dist then (mem, None)
      else
        let desired = set_end old (end' old + 1);
            (ok, env', mem', old') = compare_exchange_weak env mem old desired
        in if ok then (mem', Some (end' old))
           else reserve_back_loop max_dist env' mem' old')"
  by pat_completeness auto
termination
  apply (relation "measure (\<lambda>(max_dist, env, mem, old).
                     2 * length env + (if mem = old then 0 else 1))")
   apply simp
  subgoal for max_dist env mem old desired x ok y env' z mem' old'
    apply (cases env)
     apply (auto split: if_splits)[1]
    subgoal for e es by (cases e) (auto split: if_splits)
    done
  done


function reserve_front_loop ::
  "16 word \<Rightarrow> 32 word cas_event list \<Rightarrow> 32 word \<Rightarrow> fast_range \<Rightarrow> 32 word \<times> 16 word option" where
  "reserve_front_loop max_dist env mem old =
     (if end' old - start old > max_dist then (mem, None)
      else
        let desired = set_start old (start old - 1);
            (ok, env', mem', old') = compare_exchange_weak env mem old desired
        in if ok then (mem', Some (start desired))
           else reserve_front_loop max_dist env' mem' old')"
  by pat_completeness auto
termination
  apply (relation "measure (\<lambda>(max_dist, env, mem, old).
                     2 * length env + (if mem = old then 0 else 1))")
   apply simp
  subgoal for max_dist env mem old desired x ok y env' z mem' old'
    apply (cases env)
     apply (auto split: if_splits)[1]
    subgoal for e es by (cases e) (auto split: if_splits)
    done
  done

function consume_front_loop ::
  "32 word cas_event list \<Rightarrow> 32 word \<Rightarrow> fast_range \<Rightarrow> 32 word \<times> 16 word option" where
  "consume_front_loop env mem old =
     (if start old = end' old then (mem, None)
      else
        let desired = set_start old (start old + 1);
            (ok, env', mem', old') = compare_exchange_weak env mem old desired
        in if ok then (mem', Some (start old))
           else consume_front_loop env' mem' old')"
  by pat_completeness auto
termination
  apply (relation "measure (\<lambda>(env, mem, old).
                     2 * length env + (if mem = old then 0 else 1))")
   apply simp
  subgoal for env mem old desired x ok y env' z mem' old'
    apply (cases env)
     apply (auto split: if_splits)[1]
    subgoal for e es by (cases e) (auto split: if_splits)
    done
  done

function consume_back_loop ::
  "32 word cas_event list \<Rightarrow> 32 word \<Rightarrow> fast_range \<Rightarrow> 32 word \<times> 16 word option" where
  "consume_back_loop env mem old =
     (if start old = end' old then (mem, None)
      else
        let desired = set_end old (end' old - 1);
            (ok, env', mem', old') = compare_exchange_weak env mem old desired
        in if ok then (mem', Some (end' desired))
           else consume_back_loop env' mem' old')"
  by pat_completeness auto
termination
  apply (relation "measure (\<lambda>(env, mem, old).
                     2 * length env + (if mem = old then 0 else 1))")
   apply simp
  subgoal for env mem old desired x ok y env' z mem' old'
    apply (cases env)
     apply (auto split: if_splits)[1]
    subgoal for e es by (cases e) (auto split: if_splits)
    done
  done

text \<open>
  The four member functions: \<open>max_dist\<close> is \<^verbatim>\<open>static_cast<uint16_t>(size_ - 3)\<close>, the
  subtraction of the 16-bit word; \<open>old\<close> starts as the value loaded from the atomic.
\<close>

definition reserve_back ::
  "32 word cas_event list \<Rightarrow> 'a bounded_dequeue \<Rightarrow> 'a bounded_dequeue \<times> 16 word option" where
  "reserve_back env bd =
     (let max_dist = size' bd - 3;
          old = fast_range' bd;
          (mem', pos) = reserve_back_loop max_dist env (fast_range' bd) old
      in (bd\<lparr>fast_range' := mem'\<rparr>, pos))"

definition reserve_front ::
  "32 word cas_event list \<Rightarrow> 'a bounded_dequeue \<Rightarrow> 'a bounded_dequeue \<times> 16 word option" where
  "reserve_front env bd =
     (let max_dist = size' bd - 3;
          old = fast_range' bd;
          (mem', pos) = reserve_front_loop max_dist env (fast_range' bd) old
      in (bd\<lparr>fast_range' := mem'\<rparr>, pos))"

definition consume_front ::
  "32 word cas_event list \<Rightarrow> 'a bounded_dequeue \<Rightarrow> 'a bounded_dequeue \<times> 16 word option" where
  "consume_front env bd =
     (let old = fast_range' bd;
          (mem', pos) = consume_front_loop env (fast_range' bd) old
      in (bd\<lparr>fast_range' := mem'\<rparr>, pos))"

definition consume_back ::
  "32 word cas_event list \<Rightarrow> 'a bounded_dequeue \<Rightarrow> 'a bounded_dequeue \<times> 16 word option" where
  "consume_back env bd =
     (let old = fast_range' bd;
          (mem', pos) = consume_back_loop env (fast_range' bd) old
      in (bd\<lparr>fast_range' := mem'\<rparr>, pos))"

subsection \<open>Moving the payload in and out of a slot\<close>

text \<open>
  \<^verbatim>\<open>circular_buffer_[pos % size_]\<close>: the remainder by zero and an index outside the vector
  are undefined behaviour in C++, \<open>None\<close> here.
\<close>

definition slot_index :: "'a bounded_dequeue \<Rightarrow> 16 word \<Rightarrow> nat option" where
  "slot_index bd pos =
     (if size' bd = 0 then None
      else let i = unat pos mod unat (size' bd)
           in if i < length (circular_buffer' bd) then Some i else None)"

text \<open>
  The loop \<^verbatim>\<open>while (!item.state_.compare_exchange_strong(old, desired, ...)) spinner.pause();\<close>
  of both functions, for a thread that runs alone: \<open>cur\<close> is the state of the slot,
  the result is the state the loop leaves in it. A failed exchange writes the observed
  state into \<open>old\<close>, and the source does not reset \<open>old\<close> before the next attempt.
\<close>

function spin_exchange :: "item_state \<Rightarrow> item_state \<Rightarrow> item_state \<Rightarrow> item_state" where
  "spin_exchange cur old desired =
     (let (ok, cur', old') = compare_exchange_strong cur old desired
      in if ok then cur' else spin_exchange cur' old' desired)"
  by pat_completeness auto
termination
  by (relation "measure (\<lambda>(cur, old, desired). if cur = old then 0 else 1)")
     (auto simp: compare_exchange_strong_def split: if_splits)

text \<open>
  \<^verbatim>\<open>std::move\<close> out of a slot leaves a valid but unspecified payload behind; the model
  leaves the payload as it was, which is exact for a trivially copyable \<^verbatim>\<open>T\<close> such as
  \<^verbatim>\<open>int\<close> (a \<^verbatim>\<open>std::string\<close> would leave the empty string). The payload of a slot matters
  only to a pop that reads a slot nobody constructed since the last move.
\<close>

definition construct_in_fast ::
  "16 word \<Rightarrow> 'a \<Rightarrow> 'a bounded_dequeue \<Rightarrow> 'a bounded_dequeue option" where
  "construct_in_fast pos elem bd =
     (case slot_index bd pos of
        None \<Rightarrow> None
      | Some i \<Rightarrow>
          let item = circular_buffer' bd ! i;
              item1 = item\<lparr>state' := spin_exchange (state' item) freed constructing\<rparr>;
              item2 = item1\<lparr>elem' := elem\<rparr>;
              item3 = item2\<lparr>state' := valid\<rparr>
          in Some (bd\<lparr>circular_buffer' := (circular_buffer' bd)[i := item3]\<rparr>))"

definition extract_from_fast ::
  "16 word \<Rightarrow> 'a bounded_dequeue \<Rightarrow> ('a \<times> 'a bounded_dequeue) option" where
  "extract_from_fast pos bd =
     (case slot_index bd pos of
        None \<Rightarrow> None
      | Some i \<Rightarrow>
          let item = circular_buffer' bd ! i;
              item1 = item\<lparr>state' := spin_exchange (state' item) valid destructing\<rparr>;
              elem = elem' item1;
              item2 = item1\<lparr>state' := freed\<rparr>
          in Some (elem, bd\<lparr>circular_buffer' := (circular_buffer' bd)[i := item2]\<rparr>))"

section \<open>The concurrent deque: \<^verbatim>\<open>concurrent_dequeue\<close>\<close>

text \<open>
  \<open>num_elements_slow'\<close> is a \<^verbatim>\<open>std::atomic<int>\<close>: 32 bits, two's complement, read with
  \<open>sint\<close>; its increment and decrement wrap around. The mutex \<^verbatim>\<open>bottleneck_\<close> is
  held for the whole of each slow path, which is therefore one step of the model.
\<close>

record 'a concurrent_dequeue =
  fast_deque' :: "'a bounded_dequeue"
  slow_access_elems' :: "'a list"
  num_elements_slow' :: "32 word"

definition concurrent_dequeue :: "'a \<Rightarrow> nat \<Rightarrow> 'a concurrent_dequeue" where
  "concurrent_dequeue t0 expected_size =
     \<lparr>fast_deque' = bounded_dequeue t0 expected_size,
      slow_access_elems' = [],
      num_elements_slow' = 0\<rparr>"

text \<open>
  The operations below are run by one thread at a time (no event of another thread).
  A push returns the new deque, \<open>None\<close> when it runs into undefined behaviour. A pop
  takes the caller's \<open>elem\<close> and returns the boolean result, the content of \<open>elem\<close>
  afterwards and the new deque.
\<close>

definition push_back :: "'a \<Rightarrow> 'a concurrent_dequeue \<Rightarrow> 'a concurrent_dequeue option" where
  "push_back elem q =
     (case reserve_back [] (fast_deque' q) of
        (bd, Some pos) \<Rightarrow>
          (case construct_in_fast pos elem bd of
             None \<Rightarrow> None
           | Some bd' \<Rightarrow> Some (q\<lparr>fast_deque' := bd'\<rparr>))
      | (bd, None) \<Rightarrow>
          Some (q\<lparr>fast_deque' := bd,
                  num_elements_slow' := num_elements_slow' q + 1,
                  slow_access_elems' := slow_access_elems' q @ [elem]\<rparr>))"

definition push_front :: "'a \<Rightarrow> 'a concurrent_dequeue \<Rightarrow> 'a concurrent_dequeue option" where
  "push_front elem q =
     (case reserve_front [] (fast_deque' q) of
        (bd, Some pos) \<Rightarrow>
          (case construct_in_fast pos elem bd of
             None \<Rightarrow> None
           | Some bd' \<Rightarrow> Some (q\<lparr>fast_deque' := bd'\<rparr>))
      | (bd, None) \<Rightarrow>
          Some (q\<lparr>fast_deque' := bd,
                  num_elements_slow' := num_elements_slow' q + 1,
                  slow_access_elems' := elem # slow_access_elems' q\<rparr>))"

definition try_pop_front ::
  "'a \<Rightarrow> 'a concurrent_dequeue \<Rightarrow> (bool \<times> 'a \<times> 'a concurrent_dequeue) option" where
  "try_pop_front elem q =
     (case consume_front [] (fast_deque' q) of
        (bd, Some pos) \<Rightarrow>
          (case extract_from_fast pos bd of
             None \<Rightarrow> None
           | Some (elem1, bd') \<Rightarrow> Some (True, elem1, q\<lparr>fast_deque' := bd'\<rparr>))
      | (bd, None) \<Rightarrow>
          if 0 < sint (num_elements_slow' q) then
            (case slow_access_elems' q of
               [] \<Rightarrow> Some (False, elem, q\<lparr>fast_deque' := bd\<rparr>)
             | x # xs \<Rightarrow>
                 Some (True, x, q\<lparr>fast_deque' := bd,
                                  num_elements_slow' := num_elements_slow' q - 1,
                                  slow_access_elems' := xs\<rparr>))
          else Some (False, elem, q\<lparr>fast_deque' := bd\<rparr>))"

definition try_pop_back ::
  "'a \<Rightarrow> 'a concurrent_dequeue \<Rightarrow> (bool \<times> 'a \<times> 'a concurrent_dequeue) option" where
  "try_pop_back elem q =
     (case consume_back [] (fast_deque' q) of
        (bd, Some pos) \<Rightarrow>
          (case extract_from_fast pos bd of
             None \<Rightarrow> None
           | Some (elem1, bd') \<Rightarrow> Some (True, elem1, q\<lparr>fast_deque' := bd'\<rparr>))
      | (bd, None) \<Rightarrow>
          if 0 < sint (num_elements_slow' q) then
            (if slow_access_elems' q = [] then Some (False, elem, q\<lparr>fast_deque' := bd\<rparr>)
             else
               Some (True, last (slow_access_elems' q),
                     q\<lparr>fast_deque' := bd,
                       num_elements_slow' := num_elements_slow' q - 1,
                       slow_access_elems' := butlast (slow_access_elems' q)\<rparr>))
          else Some (False, elem, q\<lparr>fast_deque' := bd\<rparr>))"

definition unsafe_clear :: "'a concurrent_dequeue \<Rightarrow> 'a concurrent_dequeue" where
  "unsafe_clear q =
     q\<lparr>fast_deque' := (fast_deque' q)
          \<lparr>fast_range' := 0,
           circular_buffer' := map (\<lambda>el. el\<lparr>state' := freed\<rparr>) (circular_buffer' (fast_deque' q))\<rparr>,
       slow_access_elems' := [],
       num_elements_slow' := 0\<rparr>"

subsection \<open>Sequences of calls\<close>

text \<open>
  A caller's view of the deque: one call after the other, each with its arguments (for a
  pop, what the caller's \<open>elem\<close> holds before the call). \<open>do_call\<close> gives what a pop
  reports, the boolean and the content of \<open>elem\<close> afterwards; \<open>run\<close> collects the
  reports of a sequence of calls, and is \<open>None\<close> as soon as one call is undefined.
\<close>

datatype 'a call = PushBack 'a | PushFront 'a | TryPopFront 'a | TryPopBack 'a | UnsafeClear

fun do_call ::
  "'a call \<Rightarrow> 'a concurrent_dequeue \<Rightarrow> ((bool \<times> 'a) option \<times> 'a concurrent_dequeue) option" where
  "do_call (PushBack x) q = map_option (Pair None) (push_back x q)"
| "do_call (PushFront x) q = map_option (Pair None) (push_front x q)"
| "do_call (TryPopFront e) q = map_option (\<lambda>(b, e', q'). (Some (b, e'), q')) (try_pop_front e q)"
| "do_call (TryPopBack e) q = map_option (\<lambda>(b, e', q'). (Some (b, e'), q')) (try_pop_back e q)"
| "do_call UnsafeClear q = Some (None, unsafe_clear q)"

fun run ::
  "'a call list \<Rightarrow> 'a concurrent_dequeue \<Rightarrow>
     ((bool \<times> 'a) option list \<times> 'a concurrent_dequeue) option" where
  "run [] q = Some ([], q)"
| "run (c # cs) q =
     (case do_call c q of
        None \<Rightarrow> None
      | Some (out, q') \<Rightarrow> map_option (\<lambda>(outs, q''). (out # outs, q'')) (run cs q'))"

text \<open>
  What a sequence of calls pushed, what its pops handed out, and what a deque holds: the
  payloads of the slots of the positions from \<open>start\<close> up to \<open>end\<close>, and the slow deque.
\<close>

fun pushed :: "'a call list \<Rightarrow> 'a multiset" where
  "pushed [] = {#}"
| "pushed (PushBack x # cs) = add_mset x (pushed cs)"
| "pushed (PushFront x # cs) = add_mset x (pushed cs)"
| "pushed (c # cs) = pushed cs"

fun popped :: "(bool \<times> 'a) option list \<Rightarrow> 'a multiset" where
  "popped [] = {#}"
| "popped (Some (True, e) # outs) = add_mset e (popped outs)"
| "popped (out # outs) = popped outs"

definition fast_elems :: "'a bounded_dequeue \<Rightarrow> 'a list" where
  "fast_elems bd =
     map (\<lambda>k. elem' (circular_buffer' bd !
                  (unat (start (fast_range' bd) + of_nat k) mod unat (size' bd))))
       [0 ..< unat (end' (fast_range' bd) - start (fast_range' bd))]"

definition resident :: "'a concurrent_dequeue \<Rightarrow> 'a multiset" where
  "resident q = mset (fast_elems (fast_deque' q)) + mset (slow_access_elems' q)"

text \<open>The number of positions between \<open>start\<close> and \<open>end\<close>, modulo \<open>2 ^ 16\<close>.\<close>

definition occupancy :: "'a concurrent_dequeue \<Rightarrow> nat" where
  "occupancy q = unat (end' (fast_range' (fast_deque' q)) - start (fast_range' (fast_deque' q)))"

subsection \<open>Invariants of the deque\<close>

text \<open>
  The constructor leaves a deque whose \<open>size'\<close> is not zero and not larger than the
  vector, unless the requested size is a multiple of \<open>2 ^ 16\<close>; every call keeps that.
\<close>

definition constructed :: "'a concurrent_dequeue \<Rightarrow> bool" where
  "constructed q \<longleftrightarrow>
     size' (fast_deque' q) \<noteq> 0 \<and>
     unat (size' (fast_deque' q)) \<le> length (circular_buffer' (fast_deque' q))"


text \<open>The occupancy is at most one more than the limit \<open>max_dist\<close> of the reservations.\<close>

definition within_limit :: "'a concurrent_dequeue \<Rightarrow> bool" where
  "within_limit q \<longleftrightarrow> occupancy q \<le> unat (size' (fast_deque' q) - 3) + 1"

text \<open>
  A ring on which positions and slots agree: its size divides \<open>2 ^ 16\<close>, so that the
  positions \<open>65535\<close> and \<open>0\<close> are neighbours in the vector as well, and is at least 3.
\<close>

definition ring_ok :: "'a bounded_dequeue \<Rightarrow> bool" where
  "ring_ok bd \<longleftrightarrow>
     unat (size' bd) dvd 65536 \<and> 3 \<le> unat (size' bd) \<and>
     unat (size' bd) \<le> length (circular_buffer' bd) \<and>
     unat (end' (fast_range' bd) - start (fast_range' bd)) \<le> unat (size' bd) - 2"

section \<open>Spawning tasks: \<^verbatim>\<open>spawn.hpp\<close>\<close>

text \<open>
  Modelled from the spec: \<^verbatim>\<open>task\<close>, \<^verbatim>\<open>task_group\<close> and \<^verbatim>\<open>detail::task_system\<close> are declared in
  \<^verbatim>\<open>task.hpp\<close> and \<^verbatim>\<open>detail/task_system.hpp\<close>, which are not among the files modelled here. A task is a thunk with the handle of
  its group; a group is empty or has an identity and a parent (\<^verbatim>\<open>create(parent)\<close>); the
  group of the task that runs on the calling thread is \<^verbatim>\<open>current()\<close>. Of the task system
  only the calls made on it are kept, in order.
\<close>

datatype task_group = no_group | group (group_id: nat) (parent: task_group)

record 'f task =
  ftor_of :: 'f
  group_of :: task_group

datatype 'f tsys_call =
  Spawn "'f task" bool | EnterWorker | BusyWaitOn task_group | ExitWorker

record 'f task_system =
  current_task_group :: task_group
  groups_created :: nat
  calls :: "'f tsys_call list"

text \<open>Modelled from the spec: \<^verbatim>\<open>task_group::create\<close> returns a new group under the given parent.\<close>

definition create :: "task_group \<Rightarrow> 'f task_system \<Rightarrow> task_group \<times> 'f task_system" where
  "create p ts = (group (groups_created ts) p, ts\<lparr>groups_created := Suc (groups_created ts)\<rparr>)"

text \<open>Modelled from the spec: the member functions of \<^verbatim>\<open>task_system\<close> that \<^verbatim>\<open>spawn.hpp\<close> calls.\<close>

definition tsys_spawn :: "'f task \<Rightarrow> bool \<Rightarrow> 'f task_system \<Rightarrow> 'f task_system" where
  "tsys_spawn t wake_workers ts = ts\<lparr>calls := calls ts @ [Spawn t wake_workers]\<rparr>"

definition enter_worker :: "'f task_system \<Rightarrow> 'f task_system" where
  "enter_worker ts = ts\<lparr>calls := calls ts @ [EnterWorker]\<rparr>"

definition busy_wait_on :: "task_group \<Rightarrow> 'f task_system \<Rightarrow> 'f task_system" where
  "busy_wait_on g ts = ts\<lparr>calls := calls ts @ [BusyWaitOn g]\<rparr>"

definition exit_worker :: "'f task_system \<Rightarrow> 'f task_system" where
  "exit_worker ts = ts\<lparr>calls := calls ts @ [ExitWorker]\<rparr>"

text \<open>
  The overloads of \<^verbatim>\<open>spawn\<close> and \<^verbatim>\<open>spawn_and_wait\<close>, from the source: for a task, for a
  functor (\<open>_ftor\<close>) and for an initializer list of functors (\<open>_ftors\<close>).
\<close>

definition spawn_task :: "'f task \<Rightarrow> bool \<Rightarrow> 'f task_system \<Rightarrow> 'f task_system" where
  "spawn_task t wake_workers ts = tsys_spawn t wake_workers ts"

definition spawn_ftor :: "'f \<Rightarrow> bool \<Rightarrow> 'f task_system \<Rightarrow> 'f task_system" where
  "spawn_ftor ftor wake_workers ts =
     (let grp = current_task_group ts
      in tsys_spawn \<lparr>ftor_of = ftor, group_of = grp\<rparr> wake_workers ts)"

text \<open>
  The loop over the initializer list. \<open>count'\<close> (the source's \<^verbatim>\<open>count\<close>) is an \<^verbatim>\<open>int\<close>, 32 bits read with \<open>sint\<close>;
  \<^verbatim>\<open>count-- > 0\<close> compares the value before the decrement.
\<close>

fun spawn_ftors_loop ::
  "'f list \<Rightarrow> task_group \<Rightarrow> 32 word \<Rightarrow> bool \<Rightarrow> 'f task_system \<Rightarrow> 'f task_system" where
  "spawn_ftors_loop [] grp count' wake_workers ts = ts"
| "spawn_ftors_loop (ftor # ftors) grp count' wake_workers ts =
     (let cur_wake_workers = (0 < sint count' \<or> wake_workers)
      in spawn_ftors_loop ftors grp (count' - 1) wake_workers
           (tsys_spawn \<lparr>ftor_of = ftor, group_of = grp\<rparr> cur_wake_workers ts))"

definition spawn_ftors :: "'f list \<Rightarrow> bool \<Rightarrow> 'f task_system \<Rightarrow> 'f task_system" where
  "spawn_ftors ftors wake_workers ts =
     (let grp = current_task_group ts;
          count' = of_nat (length ftors)
      in spawn_ftors_loop ftors grp count' wake_workers ts)"

definition spawn_and_wait_ftor :: "'f \<Rightarrow> 'f task_system \<Rightarrow> 'f task_system" where
  "spawn_and_wait_ftor ftor tsys =
     (let tsys1 = enter_worker tsys;
          (grp, tsys2) = create (current_task_group tsys1) tsys1;
          tsys3 = tsys_spawn \<lparr>ftor_of = ftor, group_of = grp\<rparr> False tsys2;
          tsys4 = busy_wait_on grp tsys3
      in exit_worker tsys4)"

fun spawn_and_wait_ftors_loop ::
  "'f list \<Rightarrow> task_group \<Rightarrow> 32 word \<Rightarrow> 'f task_system \<Rightarrow> 'f task_system" where
  "spawn_and_wait_ftors_loop [] grp count' tsys = tsys"
| "spawn_and_wait_ftors_loop (ftor # ftors) grp count' tsys =
     (let cur_wake_workers = (0 < sint count')
      in spawn_and_wait_ftors_loop ftors grp (count' - 1)
           (tsys_spawn \<lparr>ftor_of = ftor, group_of = grp\<rparr> cur_wake_workers tsys))"

definition spawn_and_wait_ftors :: "'f list \<Rightarrow> bool \<Rightarrow> 'f task_system \<Rightarrow> 'f task_system" where
  "spawn_and_wait_ftors ftors wake_workers tsys =
     (let tsys1 = enter_worker tsys;
          (grp, tsys2) = create (current_task_group tsys1) tsys1;
          count' = of_nat (length ftors);
          tsys3 = spawn_and_wait_ftors_loop ftors grp count' tsys2;
          tsys4 = busy_wait_on grp tsys3
      in exit_worker tsys4)"

text \<open>The tasks a sequence of calls spawned, each with its \<open>wake_workers\<close> argument.\<close>

fun spawned :: "'f tsys_call list \<Rightarrow> ('f task \<times> bool) list" where
  "spawned [] = []"
| "spawned (Spawn t w # cs) = (t, w) # spawned cs"
| "spawned (c # cs) = spawned cs"

section \<open>The reader-writer serializer: \<^verbatim>\<open>rw_serializer\<close>\<close>

text \<open>
  Modelled from the spec: the header declares \<^verbatim>\<open>rw_serializer\<close>, its \<^verbatim>\<open>reader_type\<close> and
  its \<^verbatim>\<open>writer_type\<close>, but \<^verbatim>\<open>struct impl\<close> and the bodies of the two call operators are
  in no file modelled here. The state is the one the spec describes: the three
  counters and the two waiting lists. Every change of it happens under one mutex, so
  each of the four events below is one step.

  To observe what the serializer does, the state also keeps the tasks it has handed to
  an executor and that have not completed (\<open>running_writes\<close>, \<open>running_reads\<close>: a task
  can only execute while it is in one of them), the WRITE tasks in the order they were
  enqueued and the WRITE tasks in the order they were handed to an executor.
\<close>

record 'a rw_impl =
  writers_pending :: nat
  writers_running :: nat
  readers_running :: nat
  pending_writes :: "'a list"
  pending_reads :: "'a list"
  running_writes :: "'a list"
  running_reads :: "'a list"
  enqueued_writes :: "'a list"
  started_writes :: "'a list"

text \<open>Modelled from the spec: a new serializer has nothing pending and nothing running.\<close>

definition rw_serializer :: "'a rw_impl" where
  "rw_serializer =
     \<lparr>writers_pending = 0, writers_running = 0, readers_running = 0,
      pending_writes = [], pending_reads = [],
      running_writes = [], running_reads = [],
      enqueued_writes = [], started_writes = []\<rparr>"

text \<open>
  Modelled from the spec: starting the next writer is "pop one, \<open>writers_pending--\<close>,
  \<open>writers_running = 1\<close>, submit to the continuation executor".
\<close>

definition start_next_writer :: "'a rw_impl \<Rightarrow> 'a rw_impl" where
  "start_next_writer s =
     (case pending_writes s of
        [] \<Rightarrow> s
      | t # ts \<Rightarrow>
          s\<lparr>pending_writes := ts,
            writers_pending := writers_pending s - 1,
            writers_running := 1,
            running_writes := running_writes s @ [t],
            started_writes := started_writes s @ [t]\<rparr>)"

text \<open>
  Modelled from the spec: writer enqueue is "append to \<open>pending_writes\<close>;
  \<open>writers_pending++\<close>; attempt to start the next writer if \<open>writers_running = 0\<close> and
  \<open>readers_running = 0\<close>".
\<close>

definition writer_enqueue :: "'a \<Rightarrow> 'a rw_impl \<Rightarrow> 'a rw_impl" where
  "writer_enqueue t s =
     (let s1 = s\<lparr>pending_writes := pending_writes s @ [t],
                 writers_pending := writers_pending s + 1,
                 enqueued_writes := enqueued_writes s @ [t]\<rparr>
      in if writers_running s1 = 0 \<and> readers_running s1 = 0 then start_next_writer s1 else s1)"

text \<open>
  Modelled from the spec: reader enqueue is "if \<open>writers_running = 0\<close> and
  \<open>writers_pending = 0\<close>, submit directly to the base executor and \<open>readers_running++\<close>;
  else append to \<open>pending_reads\<close>".
\<close>

definition reader_enqueue :: "'a \<Rightarrow> 'a rw_impl \<Rightarrow> 'a rw_impl" where
  "reader_enqueue t s =
     (if writers_running s = 0 \<and> writers_pending s = 0
      then s\<lparr>running_reads := running_reads s @ [t],
              readers_running := readers_running s + 1\<rparr>
      else s\<lparr>pending_reads := pending_reads s @ [t]\<rparr>)"

text \<open>
  Modelled from the spec: writer completion is "\<open>writers_running--\<close>; then, if
  \<open>pending_writes\<close> is non-empty, pop one and start it; else if \<open>pending_reads\<close> is
  non-empty, drain all of them to the base executor, incrementing \<open>readers_running\<close> by
  the count drained". Only a WRITE task that is running can complete.
\<close>

definition writer_completion :: "'a \<Rightarrow> 'a rw_impl \<Rightarrow> 'a rw_impl option" where
  "writer_completion t s =
     (if t \<notin> set (running_writes s) then None
      else
        let s1 = s\<lparr>running_writes := remove1 t (running_writes s),
                    writers_running := writers_running s - 1\<rparr>
        in if pending_writes s1 \<noteq> [] then Some (start_next_writer s1)
           else if pending_reads s1 \<noteq> [] then
             Some (s1\<lparr>running_reads := running_reads s1 @ pending_reads s1,
                       readers_running := readers_running s1 + length (pending_reads s1),
                       pending_reads := []\<rparr>)
           else Some s1)"

text \<open>
  Modelled from the spec: reader completion is "\<open>readers_running--\<close>; if this reaches 0
  and \<open>pending_writes\<close> is non-empty, pop one and start it". Only a READ task that is
  running can complete.
\<close>

definition reader_completion :: "'a \<Rightarrow> 'a rw_impl \<Rightarrow> 'a rw_impl option" where
  "reader_completion t s =
     (if t \<notin> set (running_reads s) then None
      else
        let s1 = s\<lparr>running_reads := remove1 t (running_reads s),
                    readers_running := readers_running s - 1\<rparr>
        in if readers_running s1 = 0 \<and> pending_writes s1 \<noteq> [] then Some (start_next_writer s1)
           else Some s1)"

text \<open>The events of an execution, in the order in which they take the mutex.\<close>

datatype 'a rw_event = EnqueueWrite 'a | EnqueueRead 'a | WriteDone 'a | ReadDone 'a

fun rw_step :: "'a rw_event \<Rightarrow> 'a rw_impl \<Rightarrow> 'a rw_impl option" where
  "rw_step (EnqueueWrite t) s = Some (writer_enqueue t s)"
| "rw_step (EnqueueRead t) s = Some (reader_enqueue t s)"
| "rw_step (WriteDone t) s = writer_completion t s"
| "rw_step (ReadDone t) s = reader_completion t s"

fun rw_run :: "'a rw_event list \<Rightarrow> 'a rw_impl \<Rightarrow> 'a rw_impl option" where
  "rw_run [] s = Some s"
| "rw_run (e # es) s = (case rw_step e s of None \<Rightarrow> None | Some s' \<Rightarrow> rw_run es s')"

definition rw_invariant :: "'a rw_impl \<Rightarrow> bool" where
  "rw_invariant s \<longleftrightarrow>
     writers_running s = length (running_writes s) \<and>
     readers_running s = length (running_reads s) \<and>
     writers_pending s = length (pending_writes s) \<and>
     length (running_writes s) \<le> 1 \<and>
     (running_writes s = [] \<or> running_reads s = []) \<and>
     started_writes s @ pending_writes s = enqueued_writes s"

section \<open>Properties of the fast ring\<close>

lemma start_set_end [simp]: "start (set_end r e) = start r"
  unfolding start_def set_end_def
  by (rule bit_word_eqI) (auto simp: bit_simps dest: bit_imp_le_length)

lemma end_set_end [simp]: "end' (set_end r e) = e"
  unfolding end'_def set_end_def
  by (rule bit_word_eqI) (auto simp: bit_simps dest: bit_imp_le_length)

lemma start_set_start [simp]: "start (set_start r s) = s"
  unfolding start_def set_start_def
  by (rule bit_word_eqI) (auto simp: bit_simps dest: bit_imp_le_length)

lemma end_set_start [simp]: "end' (set_start r s) = end' r"
  unfolding end'_def set_start_def
  by (rule bit_word_eqI) (auto simp: bit_simps dest: bit_imp_le_length)

lemma start_zero [simp]: "start 0 = 0"
  by (simp add: start_def)

lemma end_zero [simp]: "end' 0 = 0"
  by (simp add: end'_def)

lemma fast_range_eqI:
  assumes s: "start r = start r'" and e: "end' r = end' r'"
  shows "r = r'"
proof (rule bit_word_eqI)
  fix n
  assume n: "n < LENGTH(32)"
  show "bit r n = bit r' n"
  proof (cases "n < 16")
    case True
    from s have "bit (ucast r :: 16 word) n = bit (ucast r' :: 16 word) n"
      by (simp add: start_def)
    with True show ?thesis by (simp add: bit_simps)
  next
    case False
    with n have m: "n - 16 < 16" by simp
    from e have "bit (ucast (drop_bit 16 r) :: 16 word) (n - 16) =
                 bit (ucast (drop_bit 16 r') :: 16 word) (n - 16)"
      by (simp add: end'_def)
    with m False show ?thesis by (simp add: bit_simps)
  qed
qed

lemma start_pair [simp]: "start (pair s e) = s"
  unfolding start_def pair_def
  by (rule bit_word_eqI) (auto simp: bit_simps dest: bit_imp_le_length)

lemma end_pair [simp]: "end' (pair s e) = e"
  unfolding end'_def pair_def
  by (rule bit_word_eqI) (auto simp: bit_simps dest: bit_imp_le_length)

lemma pair_start_end [simp]: "pair (start r) (end' r) = r"
  by (rule fast_range_eqI) simp_all

lemma set_end_pair: "set_end r e = pair (start r) e"
  by (rule fast_range_eqI) simp_all

lemma set_start_pair: "set_start r s = pair s (end' r)"
  by (rule fast_range_eqI) simp_all

lemma pair_eq_iff [simp]: "pair s e = pair s' e' \<longleftrightarrow> s = s' \<and> e = e'"
proof
  assume h: "pair s e = pair s' e'"
  from arg_cong [OF h, of start] arg_cong [OF h, of end']
  show "s = s' \<and> e = e'" by simp
qed simp

lemma pair_zero [simp]: "pair 0 0 = 0"
  by (simp add: pair_def)

declare reserve_back_loop.simps [simp del] reserve_front_loop.simps [simp del]
  consume_front_loop.simps [simp del] consume_back_loop.simps [simp del]
  spin_exchange.simps [simp del]

subsection \<open>A loop that runs alone succeeds at its first exchange\<close>

lemma reserve_back_loop_alone:
  "reserve_back_loop max_dist [] r r =
     (if max_dist < end' r - start r then (r, None)
      else (pair (start r) (end' r + 1), Some (end' r)))"
  by (subst reserve_back_loop.simps) (simp add: set_end_pair)

lemma reserve_front_loop_alone:
  "reserve_front_loop max_dist [] r r =
     (if max_dist < end' r - start r then (r, None)
      else (pair (start r - 1) (end' r), Some (start r - 1)))"
  by (subst reserve_front_loop.simps) (simp add: set_start_pair)

lemma consume_front_loop_alone:
  "consume_front_loop [] r r =
     (if start r = end' r then (r, None)
      else (pair (start r + 1) (end' r), Some (start r)))"
  by (subst consume_front_loop.simps) (simp add: set_start_pair)

lemma consume_back_loop_alone:
  "consume_back_loop [] r r =
     (if start r = end' r then (r, None)
      else (pair (start r) (end' r - 1), Some (end' r - 1)))"
  by (subst consume_back_loop.simps) (simp add: set_end_pair)

subsection \<open>A loop among other threads\<close>

text \<open>
  Whatever the other threads store into the atomic while a loop retries, the loop ends,
  and it ends as if it had run alone on one of the values the atomic held: the value
  \<open>v\<close> it read last decides between failure and success, and on success the atomic goes
  from \<open>v\<close> to the new pair in one exchange.
\<close>

lemma compare_exchange_weak_outcome:
  assumes "compare_exchange_weak env mem old desired = (ok, env', mem', old')"
  shows "set env' \<subseteq> set env \<and>
         (if ok then (old = mem \<or> Store old \<in> set env) \<and> mem' = desired \<and> old' = old
          else old' = mem' \<and> (mem' = mem \<or> Store mem' \<in> set env))"
proof (cases env)
  case Nil
  with assms show ?thesis
    by (auto split: if_splits)
next
  case (Cons e es)
  with assms show ?thesis
    by (cases e) (auto split: if_splits)
qed

lemma reserve_back_loop_linearizes:
  assumes "reserve_back_loop max_dist env mem old = (mem', res)"
    and "old = mem"
  shows "\<exists>v. (v = mem \<or> Store v \<in> set env) \<and>
           (if max_dist < end' v - start v then mem' = v \<and> res = None
            else mem' = pair (start v) (end' v + 1) \<and> res = Some (end' v))"
  using assms
proof (induction max_dist env mem old rule: reserve_back_loop.induct)
  case (1 max_dist env mem old)
  show ?case
  proof (cases "max_dist < end' old - start old")
    case True
    with "1.prems" show ?thesis
      by (subst (asm) reserve_back_loop.simps) auto
  next
    case False
    obtain ok env' m' old' where
      c: "compare_exchange_weak env mem old (set_end old (end' old + 1)) = (ok, env', m', old')"
      by (cases "compare_exchange_weak env mem old (set_end old (end' old + 1))") auto
    show ?thesis
    proof (cases ok)
      case True
      with c False "1.prems" have "mem' = m'" "res = Some (end' old)"
        by (subst (asm) reserve_back_loop.simps; simp)+
      with compare_exchange_weak_outcome [OF c] True False show ?thesis
        by (intro exI [of _ old]) (auto simp: set_end_pair)
    next
      case nok: False
      with c False "1.prems" have r: "reserve_back_loop max_dist env' m' old' = (mem', res)"
        by (subst (asm) reserve_back_loop.simps) simp
      from compare_exchange_weak_outcome [OF c] nok
      have o: "old' = m'" and m: "m' = mem \<or> Store m' \<in> set env"
        and e: "set env' \<subseteq> set env"
        by simp_all
      from "1.IH" [OF False refl refl c [symmetric] refl refl nok r o]
      obtain v where "v = m' \<or> Store v \<in> set env'"
        "if max_dist < end' v - start v then mem' = v \<and> res = None
         else mem' = pair (start v) (end' v + 1) \<and> res = Some (end' v)"
        by auto
      with m e show ?thesis
        by (intro exI [of _ v]) auto
    qed
  qed
qed

lemma reserve_front_loop_linearizes:
  assumes "reserve_front_loop max_dist env mem old = (mem', res)"
    and "old = mem"
  shows "\<exists>v. (v = mem \<or> Store v \<in> set env) \<and>
           (if max_dist < end' v - start v then mem' = v \<and> res = None
            else mem' = pair (start v - 1) (end' v) \<and> res = Some (start v - 1))"
  using assms
proof (induction max_dist env mem old rule: reserve_front_loop.induct)
  case (1 max_dist env mem old)
  show ?case
  proof (cases "max_dist < end' old - start old")
    case True
    with "1.prems" show ?thesis
      by (subst (asm) reserve_front_loop.simps) auto
  next
    case False
    obtain ok env' m' old' where
      c: "compare_exchange_weak env mem old (set_start old (start old - 1)) = (ok, env', m', old')"
      by (cases "compare_exchange_weak env mem old (set_start old (start old - 1))") auto
    show ?thesis
    proof (cases ok)
      case True
      with c False "1.prems" have "mem' = m'" "res = Some (start (set_start old (start old - 1)))"
        by (subst (asm) reserve_front_loop.simps; simp)+
      with compare_exchange_weak_outcome [OF c] True False show ?thesis
        by (intro exI [of _ old]) (auto simp: set_start_pair)
    next
      case nok: False
      with c False "1.prems" have r: "reserve_front_loop max_dist env' m' old' = (mem', res)"
        by (subst (asm) reserve_front_loop.simps) simp
      from compare_exchange_weak_outcome [OF c] nok
      have o: "old' = m'" and m: "m' = mem \<or> Store m' \<in> set env"
        and e: "set env' \<subseteq> set env"
        by simp_all
      from "1.IH" [OF False refl refl c [symmetric] refl refl nok r o]
      obtain v where "v = m' \<or> Store v \<in> set env'"
        "if max_dist < end' v - start v then mem' = v \<and> res = None
         else mem' = pair (start v - 1) (end' v) \<and> res = Some (start v - 1)"
        by auto
      with m e show ?thesis
        by (intro exI [of _ v]) auto
    qed
  qed
qed

lemma consume_front_loop_linearizes:
  assumes "consume_front_loop env mem old = (mem', res)"
    and "old = mem"
  shows "\<exists>v. (v = mem \<or> Store v \<in> set env) \<and>
           (if start v = end' v then mem' = v \<and> res = None
            else mem' = pair (start v + 1) (end' v) \<and> res = Some (start v))"
  using assms
proof (induction env mem old rule: consume_front_loop.induct)
  case (1 env mem old)
  show ?case
  proof (cases "start old = end' old")
    case True
    with "1.prems" show ?thesis
      by (subst (asm) consume_front_loop.simps) auto
  next
    case False
    obtain ok env' m' old' where
      c: "compare_exchange_weak env mem old (set_start old (start old + 1)) = (ok, env', m', old')"
      by (cases "compare_exchange_weak env mem old (set_start old (start old + 1))") auto
    show ?thesis
    proof (cases ok)
      case True
      with c False "1.prems" have "mem' = m'" "res = Some (start old)"
        by (subst (asm) consume_front_loop.simps; simp)+
      with compare_exchange_weak_outcome [OF c] True False show ?thesis
        by (intro exI [of _ old]) (auto simp: set_start_pair)
    next
      case nok: False
      with c False "1.prems" have r: "consume_front_loop env' m' old' = (mem', res)"
        by (subst (asm) consume_front_loop.simps) simp
      from compare_exchange_weak_outcome [OF c] nok
      have o: "old' = m'" and m: "m' = mem \<or> Store m' \<in> set env"
        and e: "set env' \<subseteq> set env"
        by simp_all
      from "1.IH" [OF False refl refl c [symmetric] refl refl nok r o]
      obtain v where "v = m' \<or> Store v \<in> set env'"
        "if start v = end' v then mem' = v \<and> res = None
         else mem' = pair (start v + 1) (end' v) \<and> res = Some (start v)"
        by auto
      with m e show ?thesis
        by (intro exI [of _ v]) auto
    qed
  qed
qed

lemma consume_back_loop_linearizes:
  assumes "consume_back_loop env mem old = (mem', res)"
    and "old = mem"
  shows "\<exists>v. (v = mem \<or> Store v \<in> set env) \<and>
           (if start v = end' v then mem' = v \<and> res = None
            else mem' = pair (start v) (end' v - 1) \<and> res = Some (end' v - 1))"
  using assms
proof (induction env mem old rule: consume_back_loop.induct)
  case (1 env mem old)
  show ?case
  proof (cases "start old = end' old")
    case True
    with "1.prems" show ?thesis
      by (subst (asm) consume_back_loop.simps) auto
  next
    case False
    obtain ok env' m' old' where
      c: "compare_exchange_weak env mem old (set_end old (end' old - 1)) = (ok, env', m', old')"
      by (cases "compare_exchange_weak env mem old (set_end old (end' old - 1))") auto
    show ?thesis
    proof (cases ok)
      case True
      with c False "1.prems" have "mem' = m'" "res = Some (end' (set_end old (end' old - 1)))"
        by (subst (asm) consume_back_loop.simps; simp)+
      with compare_exchange_weak_outcome [OF c] True False show ?thesis
        by (intro exI [of _ old]) (auto simp: set_end_pair)
    next
      case nok: False
      with c False "1.prems" have r: "consume_back_loop env' m' old' = (mem', res)"
        by (subst (asm) consume_back_loop.simps) simp
      from compare_exchange_weak_outcome [OF c] nok
      have o: "old' = m'" and m: "m' = mem \<or> Store m' \<in> set env"
        and e: "set env' \<subseteq> set env"
        by simp_all
      from "1.IH" [OF False refl refl c [symmetric] refl refl nok r o]
      obtain v where "v = m' \<or> Store v \<in> set env'"
        "if start v = end' v then mem' = v \<and> res = None
         else mem' = pair (start v) (end' v - 1) \<and> res = Some (end' v - 1)"
        by auto
      with m e show ?thesis
        by (intro exI [of _ v]) auto
    qed
  qed
qed

subsection \<open>The member functions of a thread that runs alone\<close>

lemma reserve_back_alone:
  "reserve_back [] bd =
     (let r = fast_range' bd in
      if size' bd - 3 < end' r - start r then (bd, None)
      else (bd\<lparr>fast_range' := pair (start r) (end' r + 1)\<rparr>, Some (end' r)))"
  by (simp add: reserve_back_def reserve_back_loop_alone Let_def)

lemma reserve_front_alone:
  "reserve_front [] bd =
     (let r = fast_range' bd in
      if size' bd - 3 < end' r - start r then (bd, None)
      else (bd\<lparr>fast_range' := pair (start r - 1) (end' r)\<rparr>, Some (start r - 1)))"
  by (simp add: reserve_front_def reserve_front_loop_alone Let_def)

lemma consume_front_alone:
  "consume_front [] bd =
     (let r = fast_range' bd in
      if start r = end' r then (bd, None)
      else (bd\<lparr>fast_range' := pair (start r + 1) (end' r)\<rparr>, Some (start r)))"
  by (simp add: consume_front_def consume_front_loop_alone Let_def)

lemma consume_back_alone:
  "consume_back [] bd =
     (let r = fast_range' bd in
      if start r = end' r then (bd, None)
      else (bd\<lparr>fast_range' := pair (start r) (end' r - 1)\<rparr>, Some (end' r - 1)))"
  by (simp add: consume_back_def consume_back_loop_alone Let_def)

lemma max_dist_unat: "3 \<le> unat (n :: 16 word) \<Longrightarrow> unat (n - 3) = unat n - 3"
  by (simp add: unat_sub word_le_nat_alt)




section \<open>Properties of the concurrent deque\<close>

lemma slot_index_Some:
  "size' bd \<noteq> 0 \<Longrightarrow> unat (size' bd) \<le> length (circular_buffer' bd) \<Longrightarrow>
   slot_index bd pos = Some (unat pos mod unat (size' bd))"
proof -
  assume nz: "size' bd \<noteq> 0" and le: "unat (size' bd) \<le> length (circular_buffer' bd)"
  from nz have "0 < unat (size' bd)" by (simp add: unat_gt_0)
  then have "unat pos mod unat (size' bd) < unat (size' bd)" by simp
  with le nz show ?thesis by (simp add: slot_index_def Let_def)
qed

lemma spin_exchange_result [simp]: "spin_exchange cur old desired = desired"
  by (subst spin_exchange.simps, subst spin_exchange.simps)
     (simp add: compare_exchange_strong_def)

text \<open>
  Claim C9. On an empty deque (\<open>start = end\<close> in the fast ring, slow count zero) both
  pops return false and leave the caller's \<open>elem\<close> and the whole deque as they were.
\<close>

theorem try_pop_empty_unchanged:
  "start (fast_range' (fast_deque' q)) = end' (fast_range' (fast_deque' q)) \<Longrightarrow>
   num_elements_slow' q = 0 \<Longrightarrow>
   try_pop_front elem q = Some (False, elem, q) \<and> try_pop_back elem q = Some (False, elem, q)"
  by (simp add: try_pop_front_def try_pop_back_def consume_front_alone consume_back_alone)

theorem try_pop_empty_unchanged_witness:
  "try_pop_front (7::nat) (concurrent_dequeue 0 4) = Some (False, 7, concurrent_dequeue 0 4) \<and>
   try_pop_back (7::nat) (concurrent_dequeue 0 4) = Some (False, 7, concurrent_dequeue 0 4)"
  using try_pop_empty_unchanged [of "concurrent_dequeue (0::nat) 4" 7]
  by (simp add: concurrent_dequeue_def bounded_dequeue_def)


subsection \<open>Pushes and pops are defined on every constructed deque\<close>

lemma constructed_concurrent_dequeue:
  "n mod 65536 \<noteq> 0 \<Longrightarrow> constructed (concurrent_dequeue t0 n)"
proof -
  assume n: "n mod 65536 \<noteq> 0"
  have u: "unat (of_nat n :: 16 word) = n mod 65536"
    by (simp add: unat_of_nat)
  with n have "(of_nat n :: 16 word) \<noteq> 0"
    by (metis unat_0)
  moreover have "n mod 65536 \<le> n" by simp
  ultimately show ?thesis
    by (simp add: constructed_def concurrent_dequeue_def bounded_dequeue_def u)
qed

lemma wrapped_elem_overwrite [simp]:
  "(item :: 'a wrapped_elem)\<lparr>elem' := x, state' := st\<rparr> = \<lparr>state' = st, elem' = x\<rparr>"
  by (cases item) simp

lemma construct_in_fast_Some:
  "size' bd \<noteq> 0 \<Longrightarrow> unat (size' bd) \<le> length (circular_buffer' bd) \<Longrightarrow>
   construct_in_fast pos x bd =
     Some (bd\<lparr>circular_buffer' := (circular_buffer' bd)
                 [unat pos mod unat (size' bd) := \<lparr>state' = valid, elem' = x\<rparr>]\<rparr>)"
  by (simp add: construct_in_fast_def slot_index_Some Let_def)

lemma extract_from_fast_Some:
  "size' bd \<noteq> 0 \<Longrightarrow> unat (size' bd) \<le> length (circular_buffer' bd) \<Longrightarrow>
   extract_from_fast pos bd =
     Some (elem' (circular_buffer' bd ! (unat pos mod unat (size' bd))),
           bd\<lparr>circular_buffer' := (circular_buffer' bd)
                 [unat pos mod unat (size' bd) :=
                    (circular_buffer' bd ! (unat pos mod unat (size' bd)))\<lparr>state' := freed\<rparr>]\<rparr>)"
  by (simp add: extract_from_fast_def slot_index_Some Let_def)

lemma slot_in_buffer:
  "constructed q \<Longrightarrow>
   unat pos mod unat (size' (fast_deque' q)) < length (circular_buffer' (fast_deque' q))"
proof -
  assume c: "constructed q"
  then have "0 < unat (size' (fast_deque' q))"
    by (simp add: constructed_def unat_gt_0)
  then have "unat pos mod unat (size' (fast_deque' q)) < unat (size' (fast_deque' q))"
    by simp
  with c show ?thesis by (simp add: constructed_def)
qed

lemma push_back_constructed:
  assumes "constructed q"
  shows "\<exists>q'. push_back x q = Some q' \<and>
            (case snd (reserve_back [] (fast_deque' q)) of
               None \<Rightarrow> slow_access_elems' q' = slow_access_elems' q @ [x] \<and>
                         fast_deque' q' = fast_deque' q
             | Some pos \<Rightarrow> slow_access_elems' q' = slow_access_elems' q \<and>
                 (\<exists>i. slot_index (fast_deque' q) pos = Some i \<and>
                      circular_buffer' (fast_deque' q') ! i = \<lparr>state' = valid, elem' = x\<rparr>))"
  using assms
  by (auto simp add: constructed_def push_back_def reserve_back_alone Let_def
      construct_in_fast_Some slot_index_Some slot_in_buffer [OF assms])

lemma push_front_constructed:
  assumes "constructed q"
  shows "\<exists>q'. push_front x q = Some q' \<and>
            (case snd (reserve_front [] (fast_deque' q)) of
               None \<Rightarrow> slow_access_elems' q' = x # slow_access_elems' q \<and>
                         fast_deque' q' = fast_deque' q
             | Some pos \<Rightarrow> slow_access_elems' q' = slow_access_elems' q \<and>
                 (\<exists>i. slot_index (fast_deque' q) pos = Some i \<and>
                      circular_buffer' (fast_deque' q') ! i = \<lparr>state' = valid, elem' = x\<rparr>))"
  using assms
  by (auto simp add: constructed_def push_front_def reserve_front_alone Let_def
      construct_in_fast_Some slot_index_Some slot_in_buffer [OF assms])

lemma try_pop_front_constructed:
  "constructed q \<Longrightarrow>
   \<exists>b e q'. try_pop_front elem q = Some (b, e, q') \<and> (\<not> b \<longrightarrow> e = elem \<and> q' = q)"
  by (auto simp add: constructed_def try_pop_front_def consume_front_alone Let_def
      extract_from_fast_Some split: list.split)

lemma try_pop_back_constructed:
  "constructed q \<Longrightarrow>
   \<exists>b e q'. try_pop_back elem q = Some (b, e, q') \<and> (\<not> b \<longrightarrow> e = elem \<and> q' = q)"
  by (auto simp add: constructed_def try_pop_back_def consume_back_alone Let_def
      extract_from_fast_Some)

text \<open>
  On every constructed deque and for every element, \<open>push_back\<close> and \<open>push_front\<close>
  return: when the reservation in the fast ring fails the element is added to the slow
  deque (at its back, at its front), otherwise it is stored, valid, in the reserved slot.
  \<open>try_pop_front\<close> and \<open>try_pop_back\<close> always return their boolean, and when it is
  false they have changed neither the caller's \<open>elem\<close> nor the deque.
\<close>

theorem push_succeeds_pop_returns:
  assumes "constructed q"
  shows "(\<exists>q'. push_back x q = Some q' \<and>
            (case snd (reserve_back [] (fast_deque' q)) of
               None \<Rightarrow> slow_access_elems' q' = slow_access_elems' q @ [x] \<and>
                         fast_deque' q' = fast_deque' q
             | Some pos \<Rightarrow> slow_access_elems' q' = slow_access_elems' q \<and>
                 (\<exists>i. slot_index (fast_deque' q) pos = Some i \<and>
                      circular_buffer' (fast_deque' q') ! i = \<lparr>state' = valid, elem' = x\<rparr>))) \<and>
         (\<exists>q'. push_front x q = Some q' \<and>
            (case snd (reserve_front [] (fast_deque' q)) of
               None \<Rightarrow> slow_access_elems' q' = x # slow_access_elems' q \<and>
                         fast_deque' q' = fast_deque' q
             | Some pos \<Rightarrow> slow_access_elems' q' = slow_access_elems' q \<and>
                 (\<exists>i. slot_index (fast_deque' q) pos = Some i \<and>
                      circular_buffer' (fast_deque' q') ! i = \<lparr>state' = valid, elem' = x\<rparr>))) \<and>
         (\<exists>b e q'. try_pop_front elem q = Some (b, e, q') \<and> (\<not> b \<longrightarrow> e = elem \<and> q' = q)) \<and>
         (\<exists>b e q'. try_pop_back elem q = Some (b, e, q') \<and> (\<not> b \<longrightarrow> e = elem \<and> q' = q))"
  using push_back_constructed [OF assms] push_front_constructed [OF assms]
    try_pop_front_constructed [OF assms] try_pop_back_constructed [OF assms]
  by blast

theorem push_succeeds_pop_returns_witness:
  "constructed (concurrent_dequeue (0::nat) 4) \<and>
   (\<exists>q'. push_back 5 (concurrent_dequeue (0::nat) 4) = Some q') \<and>
   (\<exists>q'. push_front 5 (concurrent_dequeue (0::nat) 4) = Some q') \<and>
   (\<exists>b e q'. try_pop_front 7 (concurrent_dequeue (0::nat) 4) = Some (b, e, q')) \<and>
   (\<exists>b e q'. try_pop_back 7 (concurrent_dequeue (0::nat) 4) = Some (b, e, q'))"
proof -
  have c: "constructed (concurrent_dequeue (0::nat) 4)"
    by (rule constructed_concurrent_dequeue) simp
  from push_succeeds_pop_returns [OF c, of 5 7] c show ?thesis
    by blast
qed


subsection \<open>A deque whose \<open>size'\<close> is zero\<close>

text \<open>
  The constructor truncates the requested size to 16 bits for \<open>size'\<close>, so a request for
  \<open>65536\<close> slots (or for none) leaves \<open>size' = 0\<close>. The limit \<open>size' - 3\<close> is then
  \<open>65533\<close>, the reservation succeeds on the empty ring, and \<open>construct_in_fast\<close> takes
  the remainder of the position by zero.
\<close>

lemma size_zero_of_multiple:
  "n mod 65536 = 0 \<Longrightarrow> size' (fast_deque' (concurrent_dequeue t0 n)) = 0"
proof -
  assume "n mod 65536 = 0"
  then have "unat (of_nat n :: 16 word) = 0"
    by (simp add: unat_of_nat)
  then have "(of_nat n :: 16 word) = 0"
    by (simp add: unat_eq_0)
  then show ?thesis
    by (simp add: concurrent_dequeue_def bounded_dequeue_def)
qed

lemma push_undefined_without_slots:
  assumes "n mod 65536 = 0"
  shows "push_back x (concurrent_dequeue t0 n) = None"
    and "push_front x (concurrent_dequeue t0 n) = None"
proof -
  have r: "fast_range' (fast_deque' (concurrent_dequeue t0 n)) = 0"
    by (simp add: concurrent_dequeue_def bounded_dequeue_def)
  from size_zero_of_multiple [OF assms, of t0] r
  show "push_back x (concurrent_dequeue t0 n) = None"
    by (simp add: push_back_def reserve_back_alone Let_def construct_in_fast_def slot_index_def
        word_less_nat_alt)
  from size_zero_of_multiple [OF assms, of t0] r
  show "push_front x (concurrent_dequeue t0 n) = None"
    by (simp add: push_front_def reserve_front_alone Let_def construct_in_fast_def slot_index_def
        word_less_nat_alt)
qed

text \<open>
  Claim C4 says that \<open>push_back\<close> and \<open>push_front\<close> succeed on every deque state. The
  source breaks it on the deque that the constructor builds for 65536 slots: \<open>size'\<close> is
  0 although the vector has 65536 elements, \<open>reserve_back\<close> reports room and yields
  position 0, and the push then computes \<^verbatim>\<open>pos % size_\<close> with \<open>size' = 0\<close>, which is
  undefined; the element reaches neither the ring nor the slow deque. The same happens
  on a deque built for no slots.
\<close>

theorem push_divides_by_zero_size:
  "push_back 1 (concurrent_dequeue (0::nat) 65536) = None \<and>
   push_front 1 (concurrent_dequeue (0::nat) 65536) = None \<and>
   push_back 1 (concurrent_dequeue (0::nat) 0) = None \<and>
   push_front 1 (concurrent_dequeue (0::nat) 0) = None \<and>
   size' (fast_deque' (concurrent_dequeue (0::nat) 65536)) = 0 \<and>
   length (circular_buffer' (fast_deque' (concurrent_dequeue (0::nat) 65536))) = 65536 \<and>
   snd (reserve_back [] (fast_deque' (concurrent_dequeue (0::nat) 65536))) = Some 0"
proof -
  have m: "(65536::nat) mod 65536 = 0" "(0::nat) mod 65536 = 0"
    by simp_all
  have "length (circular_buffer' (fast_deque' (concurrent_dequeue (0::nat) 65536))) = 65536"
    by (simp add: concurrent_dequeue_def bounded_dequeue_def)
  moreover have "snd (reserve_back [] (fast_deque' (concurrent_dequeue (0::nat) 65536))) = Some 0"
    by (simp add: concurrent_dequeue_def bounded_dequeue_def reserve_back_alone Let_def)
  ultimately show ?thesis
    using push_undefined_without_slots [OF m(1), of 1 0]
      push_undefined_without_slots [OF m(2), of 1 0]
      size_zero_of_multiple [OF m(1), of 0]
    by blast
qed

subsection \<open>Evaluating calls on concrete deques\<close>

lemma replicate_numeral: "replicate (numeral k) x = x # replicate (pred_numeral k) x"
  by (simp add: numeral_eq_Suc)

lemma list_update_numeral: "(x # xs)[numeral k := y] = x # xs[pred_numeral k := y]"
  by (simp add: numeral_eq_Suc)

lemma unat_minus_one_16: "unat (- 1 :: 16 word) = 65535"
  by (simp add: unsigned_minus_1_eq_mask mask_eq_exp_minus_1)

lemmas deque_eval = replicate_numeral list_update_numeral unat_minus_one_16
  push_back_def push_front_def try_pop_front_def try_pop_back_def unsafe_clear_def
  reserve_back_alone reserve_front_alone consume_front_alone consume_back_alone
  construct_in_fast_def extract_from_fast_def slot_index_def
  concurrent_dequeue_def bounded_dequeue_def Let_def

subsection \<open>The slow count\<close>

lemma sint_of_nat_small: "n < 2^31 \<Longrightarrow> sint (of_nat n :: 32 word) = int n"
  by (simp add: signed_of_nat signed_take_bit_int_eq_self)








subsection \<open>The occupancy of the fast ring\<close>

lemma occupancy_grow:
  "\<not> m < (d :: 16 word) \<Longrightarrow> unat (d + 1) \<le> unat m + 1"
proof -
  assume "\<not> m < d"
  then have "unat d \<le> unat m" by (simp add: word_less_nat_alt)
  moreover have "unat (d + 1) \<le> unat d + 1"
    by (simp add: unat_word_ariths)
  ultimately show ?thesis by simp
qed

lemma occupancy_shrink:
  "s \<noteq> e \<Longrightarrow> unat ((e :: 16 word) - s - 1) \<le> unat (e - s)"
proof -
  assume "s \<noteq> e"
  then have "e - s \<noteq> 0" by simp
  then have "unat (e - s - 1) = unat (e - s) - 1" by (rule unat_minus_one)
  then show ?thesis by simp
qed

lemma do_call_size:
  "do_call c q = Some (out, q') \<Longrightarrow> size' (fast_deque' q') = size' (fast_deque' q)"
  by (cases c)
     (auto simp: push_back_def push_front_def try_pop_front_def try_pop_back_def unsafe_clear_def
        reserve_back_alone reserve_front_alone consume_front_alone consume_back_alone Let_def
        construct_in_fast_def extract_from_fast_def
      split: option.splits if_splits list.splits)

lemma do_call_within_limit:
  "do_call c q = Some (out, q') \<Longrightarrow> within_limit q \<Longrightarrow> within_limit q'"
proof (cases c)
  case (PushBack x)
  assume "do_call c q = Some (out, q')" "within_limit q"
  with PushBack show ?thesis
    using occupancy_grow [of "size' (fast_deque' q) - 3"
         "end' (fast_range' (fast_deque' q)) - start (fast_range' (fast_deque' q))"]
    by (auto simp: within_limit_def occupancy_def push_back_def reserve_back_alone Let_def
        construct_in_fast_def add.commute add_diff_eq split: option.splits if_splits)
next
  case (PushFront x)
  assume "do_call c q = Some (out, q')" "within_limit q"
  with PushFront show ?thesis
    using occupancy_grow [of "size' (fast_deque' q) - 3"
         "end' (fast_range' (fast_deque' q)) - start (fast_range' (fast_deque' q))"]
    by (auto simp: within_limit_def occupancy_def push_front_def reserve_front_alone Let_def
        construct_in_fast_def add.commute add_diff_eq diff_diff_eq2 split: option.splits if_splits)
next
  case (TryPopFront e)
  assume "do_call c q = Some (out, q')" "within_limit q"
  with TryPopFront show ?thesis
    using occupancy_shrink [of "start (fast_range' (fast_deque' q))" "end' (fast_range' (fast_deque' q))"]
    by (auto simp: within_limit_def occupancy_def try_pop_front_def consume_front_alone Let_def
        extract_from_fast_def diff_diff_eq split: option.splits if_splits list.splits)
next
  case (TryPopBack e)
  assume "do_call c q = Some (out, q')" "within_limit q"
  with TryPopBack show ?thesis
    using occupancy_shrink [of "start (fast_range' (fast_deque' q))" "end' (fast_range' (fast_deque' q))"]
    by (auto simp: within_limit_def occupancy_def try_pop_back_def consume_back_alone Let_def
        extract_from_fast_def algebra_simps split: option.splits if_splits list.splits)
next
  case UnsafeClear
  assume "do_call c q = Some (out, q')" "within_limit q"
  with UnsafeClear show ?thesis
    by (auto simp: within_limit_def occupancy_def unsafe_clear_def)
qed


lemma run_within_limit:
  "run cs q = Some (outs, q') \<Longrightarrow> within_limit q \<Longrightarrow> within_limit q'"
proof (induction cs arbitrary: q outs)
  case Nil
  then show ?case by simp
next
  case (Cons c cs)
  then show ?case
    by (auto split: option.splits dest: do_call_within_limit)
qed

lemma run_size:
  "run cs q = Some (outs, q') \<Longrightarrow> size' (fast_deque' q') = size' (fast_deque' q)"
proof (induction cs arbitrary: q outs)
  case Nil
  then show ?case by simp
next
  case (Cons c cs)
  then show ?case
    by (auto split: option.splits dest: do_call_size)
qed

lemma size_concurrent_dequeue:
  "n < 65536 \<Longrightarrow> unat (size' (fast_deque' (concurrent_dequeue t0 n))) = n"
  by (simp add: concurrent_dequeue_def bounded_dequeue_def unat_of_nat)

text \<open>
  Claim C2, as the code has it. In every state a ring of \<open>n\<close> slots (\<open>3 \<le> n < 2 ^ 16\<close>)
  reaches, the distance \<open>end - start\<close> modulo \<open>2 ^ 16\<close> is at most \<open>n - 2\<close>, and a
  reservation at either end fails exactly when the distance is \<open>n - 2\<close>: the test
  \<^verbatim>\<open>uint16_t(old.end - old.start) > max_dist\<close> lets a push through when the ring holds
  \<open>n - 3\<close> elements.
\<close>

theorem fast_ring_occupancy_bound:
  assumes "run cs (concurrent_dequeue t0 n) = Some (outs, q)" and "3 \<le> n" and "n < 65536"
  shows "occupancy q \<le> n - 2 \<and>
         (snd (reserve_back [] (fast_deque' q)) = None \<longleftrightarrow> occupancy q = n - 2) \<and>
         (snd (reserve_front [] (fast_deque' q)) = None \<longleftrightarrow> occupancy q = n - 2)"
proof -
  have sz: "unat (size' (fast_deque' q)) = n"
    using run_size [OF assms(1)] size_concurrent_dequeue [OF assms(3)] by simp
  with assms(2) have md: "unat (size' (fast_deque' q) - 3) = n - 3"
    by (simp add: max_dist_unat)
  have "within_limit (concurrent_dequeue t0 n)"
    by (simp add: within_limit_def occupancy_def concurrent_dequeue_def bounded_dequeue_def)
  with assms(1) have "within_limit q"
    by (rule run_within_limit)
  with md assms(2) have le: "occupancy q \<le> n - 2"
    by (simp add: within_limit_def)
  have "(size' (fast_deque' q) - 3 <
          end' (fast_range' (fast_deque' q)) - start (fast_range' (fast_deque' q))) \<longleftrightarrow>
        occupancy q = n - 2"
    using le md assms(2) by (auto simp: word_less_nat_alt occupancy_def)
  with le show ?thesis
    by (simp add: reserve_back_alone reserve_front_alone Let_def)
qed

theorem fast_ring_occupancy_bound_witness:
  "map_option (occupancy \<circ> snd)
     (run [PushBack 7, PushFront 8, PushBack 9] (concurrent_dequeue (0::nat) 4)) = Some (4 - 2) \<and>
   map_option (slow_access_elems' \<circ> snd)
     (run [PushBack 7, PushFront 8, PushBack 9] (concurrent_dequeue (0::nat) 4)) = Some [9]"
proof -
  have r: "run [PushBack 7, PushFront 8, PushBack 9] (concurrent_dequeue (0::nat) 4) =
           Some ([None, None, None],
             \<lparr>fast_deque' =
                \<lparr>size' = 4,
                 circular_buffer' = [\<lparr>state' = valid, elem' = 7\<rparr>,
                                     \<lparr>state' = freed, elem' = 0\<rparr>,
                                     \<lparr>state' = freed, elem' = 0\<rparr>,
                                     \<lparr>state' = valid, elem' = 8\<rparr>],
                 fast_range' = pair (- 1) 1\<rparr>,
              slow_access_elems' = [9],
              num_elements_slow' = 1\<rparr>)"
    by (simp add: deque_eval)
  have "(3::nat) \<le> 4" and "(4::nat) < 65536" by simp_all
  from fast_ring_occupancy_bound [OF r this] r show ?thesis
    by (simp add: occupancy_def)
qed

text \<open>
  Claim C2 as it is stated fails on a ring of four slots: with one element resident
  (\<open>size - 3\<close>) a second push is still taken by the fast ring, nothing goes to the slow
  deque, and the ring then holds two elements, more than \<open>size - 3\<close>.
\<close>

theorem fast_ring_occupancy_counterexample:
  "map_option (occupancy \<circ> snd) (run [PushBack 7] (concurrent_dequeue (0::nat) 4)) = Some (4 - 3) \<and>
   map_option (occupancy \<circ> snd)
     (run [PushBack 7, PushBack 8] (concurrent_dequeue (0::nat) 4)) = Some 2 \<and>
   map_option (slow_access_elems' \<circ> snd)
     (run [PushBack 7, PushBack 8] (concurrent_dequeue (0::nat) 4)) = Some [] \<and>
   \<not> (2::nat) \<le> 4 - 3"
  by (simp add: deque_eval occupancy_def)



subsection \<open>Elements pushed and elements popped\<close>

text \<open>
  Claim C5 says that what the pops hand out is what was pushed, less what is still
  resident. The source breaks it. A ring of five slots maps the positions \<open>65535\<close> and
  \<open>0\<close> to the same slot (\<open>65535 mod 5 = 0\<close>), and the loop of \<open>construct_in_fast\<close>
  does not wait for that slot to be free: its first exchange fails and writes \<open>valid\<close>
  into \<open>old\<close>, its second exchange succeeds from \<open>valid\<close>. So \<open>push_front 1\<close> followed by
  \<open>push_back 2\<close> overwrites 1 with 2; the two pops that follow both succeed and both hand
  out 2 (the second from a slot that is \<open>freed\<close>, by the same slip in
  \<open>extract_from_fast\<close>), and the deque is empty afterwards.
\<close>

theorem aliased_slot_loses_element:
  "run [PushFront 1, PushBack 2, TryPopFront 0, TryPopFront 0, TryPopFront 0, TryPopBack 0]
     (concurrent_dequeue (0::nat) 5) =
   Some ([None, None, Some (True, 2), Some (True, 2), Some (False, 0), Some (False, 0)],
     \<lparr>fast_deque' =
        \<lparr>size' = 5,
         circular_buffer' = [\<lparr>state' = freed, elem' = 2\<rparr>,
                             \<lparr>state' = freed, elem' = 0\<rparr>,
                             \<lparr>state' = freed, elem' = 0\<rparr>,
                             \<lparr>state' = freed, elem' = 0\<rparr>,
                             \<lparr>state' = freed, elem' = 0\<rparr>],
         fast_range' = pair 1 1\<rparr>,
      slow_access_elems' = [],
      num_elements_slow' = 0\<rparr>) \<and>
   pushed [PushFront 1, PushBack 2, TryPopFront 0, TryPopFront 0, TryPopFront 0, TryPopBack (0::nat)]
     = {#1, 2#} \<and>
   popped [None, None, Some (True, 2), Some (True, 2), Some (False, 0), Some (False, 0::nat)]
     = {#2, 2#} \<and>
   resident \<lparr>fast_deque' =
        \<lparr>size' = 5,
         circular_buffer' = [\<lparr>state' = freed, elem' = 2::nat\<rparr>,
                             \<lparr>state' = freed, elem' = 0\<rparr>,
                             \<lparr>state' = freed, elem' = 0\<rparr>,
                             \<lparr>state' = freed, elem' = 0\<rparr>,
                             \<lparr>state' = freed, elem' = 0\<rparr>],
         fast_range' = pair 1 1\<rparr>,
      slow_access_elems' = [],
      num_elements_slow' = 0\<rparr> = {#}"
  by (simp add: deque_eval resident_def fast_elems_def)

text \<open>
  The same slip with two threads, on a ring of four slots: thread A reserves position 0
  for its push of 7; before A constructs the element, thread B pops, does not wait for
  the slot to become \<open>valid\<close>, and is handed the initial payload 0 of the slot; A then
  constructs 7 in a slot that is no longer between \<open>start\<close> and \<open>end\<close>, and the next pop
  finds the deque empty.
\<close>

lemma pop_between_reserve_and_construct:
  "reserve_back [] (fast_deque' (concurrent_dequeue (0::nat) 4)) =
     ((bounded_dequeue 0 4)\<lparr>fast_range' := pair 0 1\<rparr>, Some 0)"
  "try_pop_front 9
     ((concurrent_dequeue (0::nat) 4)\<lparr>fast_deque' := (bounded_dequeue 0 4)\<lparr>fast_range' := pair 0 1\<rparr>\<rparr>) =
     Some (True, 0,
       (concurrent_dequeue 0 4)\<lparr>fast_deque' := (bounded_dequeue 0 4)\<lparr>fast_range' := pair 1 1\<rparr>\<rparr>)"
  "construct_in_fast 0 7 ((bounded_dequeue (0::nat) 4)\<lparr>fast_range' := pair 1 1\<rparr>) =
     Some ((bounded_dequeue 0 4)
       \<lparr>fast_range' := pair 1 1,
        circular_buffer' := [\<lparr>state' = valid, elem' = 7\<rparr>, \<lparr>state' = freed, elem' = 0\<rparr>,
                             \<lparr>state' = freed, elem' = 0\<rparr>, \<lparr>state' = freed, elem' = 0\<rparr>]\<rparr>)"
  "try_pop_front 9
     ((concurrent_dequeue (0::nat) 4)\<lparr>fast_deque' := (bounded_dequeue 0 4)
       \<lparr>fast_range' := pair 1 1,
        circular_buffer' := [\<lparr>state' = valid, elem' = 7\<rparr>, \<lparr>state' = freed, elem' = 0\<rparr>,
                             \<lparr>state' = freed, elem' = 0\<rparr>, \<lparr>state' = freed, elem' = 0\<rparr>]\<rparr>\<rparr>) =
     Some (False, 9,
       (concurrent_dequeue (0::nat) 4)\<lparr>fast_deque' := (bounded_dequeue 0 4)
       \<lparr>fast_range' := pair 1 1,
        circular_buffer' := [\<lparr>state' = valid, elem' = 7\<rparr>, \<lparr>state' = freed, elem' = 0\<rparr>,
                             \<lparr>state' = freed, elem' = 0\<rparr>, \<lparr>state' = freed, elem' = 0\<rparr>]\<rparr>\<rparr>)"
  by (simp_all add: deque_eval)

subsection \<open>One thread on a ring whose size divides \<open>2 ^ 16\<close>\<close>

text \<open>
  What claim C5 says does hold when one thread makes the calls and the size of the ring
  divides \<open>2 ^ 16\<close>: then no two positions between \<open>start\<close> and \<open>end\<close> share a slot, a
  push adds its element at its end of the resident ones and a pop takes the element at
  its end.
\<close>

lemma unat_add_of_nat_mod:
  fixes s :: "16 word"
  assumes "n dvd 65536"
  shows "unat (s + of_nat k) mod n = (unat s + k) mod n"
proof -
  have "unat (s + of_nat k) = (unat s + k mod 65536) mod 65536"
    by (simp add: unat_word_ariths unat_of_nat)
  also have "\<dots> = (unat s + k) mod 65536"
    by (simp add: mod_add_right_eq)
  finally have "unat (s + of_nat k) mod n = (unat s + k) mod 65536 mod n"
    by simp
  with assms show ?thesis
    by (simp add: mod_mod_cancel)
qed

lemma slot_distinct:
  fixes s :: "16 word"
  assumes "n dvd 65536" and "k < j" and "j < n"
  shows "unat (s + of_nat k) mod n \<noteq> unat (s + of_nat j) mod n"
proof
  assume "unat (s + of_nat k) mod n = unat (s + of_nat j) mod n"
  with assms(1) have "(unat s + k) mod n = (unat s + j) mod n"
    by (simp add: unat_add_of_nat_mod)
  then have "n dvd (unat s + j) - (unat s + k)"
    using assms(2) by (metis mod_eq_dvd_iff_nat add_le_cancel_left less_imp_le)
  then have "n dvd j - k" by simp
  moreover from assms have "0 < j - k" "j - k < n" by simp_all
  ultimately show False
    by (meson dvd_imp_le not_less)
qed


lemma start_plus_occupancy: "(s :: 16 word) + of_nat (unat (e - s)) = e"
  by simp

lemma room_unat:
  assumes "3 \<le> unat (n :: 16 word)" and "\<not> n - 3 < d"
  shows "unat d \<le> unat n - 3" and "unat (d + 1) = unat d + 1"
proof -
  from assms show le: "unat d \<le> unat n - 3"
    by (simp add: word_less_nat_alt max_dist_unat)
  have "unat n < 65536" using unsigned_less [of n, where ?'a = nat] by simp
  with le assms(1) have "unat d + 1 < 65536" by simp
  then show "unat (d + 1) = unat d + 1"
    by (simp add: unat_word_ariths)
qed

lemma fast_elems_push_back:
  fixes bd :: "'a bounded_dequeue"
  defines "s \<equiv> start (fast_range' bd)" and "e \<equiv> end' (fast_range' bd)"
  assumes ok: "ring_ok bd" and room: "\<not> size' bd - 3 < e - s"
  shows "fast_elems (bd\<lparr>fast_range' := pair s (e + 1),
                        circular_buffer' := (circular_buffer' bd)
                          [unat e mod unat (size' bd) := \<lparr>state' = valid, elem' = x\<rparr>]\<rparr>) =
         fast_elems bd @ [x]"
proof -
  let ?n = "unat (size' bd)" and ?buf = "circular_buffer' bd"
  let ?occ = "unat (e - s)"
  from ok have dvd: "?n dvd 65536" and n3: "3 \<le> ?n" and len: "?n \<le> length ?buf"
    by (simp_all add: ring_ok_def)
  from room_unat [OF n3 room] have occ: "?occ \<le> ?n - 3" and suc: "unat (e - s + 1) = ?occ + 1"
    by simp_all
  have suc': "unat (e + 1 - s) = Suc ?occ"
    using suc by (simp add: algebra_simps)
  from n3 len have in_buf: "unat e mod ?n < length ?buf"
    by (meson less_le_trans mod_less_divisor less_le_trans zero_less_numeral)
  have old: "elem' (?buf[unat e mod ?n := \<lparr>state' = valid, elem' = x\<rparr>] ! (unat (s + of_nat k) mod ?n)) =
             elem' (?buf ! (unat (s + of_nat k) mod ?n))" if "k < ?occ" for k
  proof -
    from that occ n3 have "k < ?occ" "?occ < ?n" by simp_all
    from slot_distinct [OF dvd this, of s]
    have "unat (s + of_nat k) mod ?n \<noteq> unat e mod ?n" by simp
    then show ?thesis by simp
  qed
  have new: "?buf[unat e mod ?n := \<lparr>state' = valid, elem' = x\<rparr>] ! (unat (s + of_nat ?occ) mod ?n) =
             \<lparr>state' = valid, elem' = x\<rparr>"
    using in_buf by simp
  show ?thesis
    unfolding fast_elems_def
    using old new by (simp add: s_def [symmetric] e_def [symmetric] suc')
qed


lemma fast_elems_push_front:
  fixes bd :: "'a bounded_dequeue"
  defines "s \<equiv> start (fast_range' bd)" and "e \<equiv> end' (fast_range' bd)"
  assumes ok: "ring_ok bd" and room: "\<not> size' bd - 3 < e - s"
  shows "fast_elems (bd\<lparr>fast_range' := pair (s - 1) e,
                        circular_buffer' := (circular_buffer' bd)
                          [unat (s - 1) mod unat (size' bd) := \<lparr>state' = valid, elem' = x\<rparr>]\<rparr>) =
         x # fast_elems bd"
proof -
  let ?n = "unat (size' bd)" and ?buf = "circular_buffer' bd"
  let ?occ = "unat (e - s)"
  from ok have dvd: "?n dvd 65536" and n3: "3 \<le> ?n" and len: "?n \<le> length ?buf"
    by (simp_all add: ring_ok_def)
  from room_unat [OF n3 room] have occ: "?occ \<le> ?n - 3" and suc: "unat (e - s + 1) = ?occ + 1"
    by simp_all
  have suc': "unat (e - (s - 1)) = Suc ?occ"
    using suc by (simp add: algebra_simps)
  from n3 len have in_buf: "unat (s - 1) mod ?n < length ?buf"
    by (meson less_le_trans mod_less_divisor less_le_trans zero_less_numeral)
  have old: "elem' (?buf[unat (s - 1) mod ?n := \<lparr>state' = valid, elem' = x\<rparr>] !
                     (unat (s + of_nat k) mod ?n)) =
             elem' (?buf ! (unat (s + of_nat k) mod ?n))" if "k < ?occ" for k
  proof -
    from that occ n3 have "0 < Suc k" "Suc k < ?n" by simp_all
    from slot_distinct [OF dvd this, of "s - 1"]
    have "unat (s - 1) mod ?n \<noteq> unat (s + of_nat k) mod ?n" by simp
    then show ?thesis by simp
  qed
  have new: "?buf[unat (s - 1) mod ?n := \<lparr>state' = valid, elem' = x\<rparr>] ! (unat (s - 1) mod ?n) =
             \<lparr>state' = valid, elem' = x\<rparr>"
    using in_buf by simp
  show ?thesis
    unfolding fast_elems_def
    using old new
    by (simp add: s_def [symmetric] e_def [symmetric] suc' map_upt_Suc del: upt_Suc)
qed

lemma payload_kept [simp]:
  "elem' (xs[i := (xs ! i)\<lparr>state' := st\<rparr>] ! j) = elem' (xs ! j)"
  by (cases "i < length xs"; cases "j = i") (simp_all add: list_update_beyond)

lemma fast_elems_pop_front:
  fixes bd :: "'a bounded_dequeue"
  defines "s \<equiv> start (fast_range' bd)" and "e \<equiv> end' (fast_range' bd)"
  defines "i \<equiv> unat s mod unat (size' bd)"
  assumes ne: "s \<noteq> e"
  shows "fast_elems bd =
           elem' (circular_buffer' bd ! i) #
           fast_elems (bd\<lparr>fast_range' := pair (s + 1) e,
                          circular_buffer' := (circular_buffer' bd)
                            [i := (circular_buffer' bd ! i)\<lparr>state' := freed\<rparr>]\<rparr>)"
proof -
  from ne have "e - s \<noteq> 0" by simp
  then have "unat (e - s - 1) = unat (e - s) - 1" by (rule unat_minus_one)
  moreover from \<open>e - s \<noteq> 0\<close> have "0 < unat (e - s)" by (simp add: unat_gt_0)
  ultimately have occ: "unat (e - s) = Suc (unat (e - (s + 1)))"
    by (simp add: algebra_simps)
  show ?thesis
    unfolding fast_elems_def
    by (simp add: s_def [symmetric] e_def [symmetric] i_def occ map_upt_Suc add.assoc del: upt_Suc)
qed

lemma fast_elems_pop_back:
  fixes bd :: "'a bounded_dequeue"
  defines "s \<equiv> start (fast_range' bd)" and "e \<equiv> end' (fast_range' bd)"
  defines "i \<equiv> unat (e - 1) mod unat (size' bd)"
  assumes ne: "s \<noteq> e"
  shows "fast_elems bd =
           fast_elems (bd\<lparr>fast_range' := pair s (e - 1),
                          circular_buffer' := (circular_buffer' bd)
                            [i := (circular_buffer' bd ! i)\<lparr>state' := freed\<rparr>]\<rparr>) @
           [elem' (circular_buffer' bd ! i)]"
proof -
  from ne have "e - s \<noteq> 0" by simp
  then have "unat (e - s - 1) = unat (e - s) - 1" by (rule unat_minus_one)
  moreover from \<open>e - s \<noteq> 0\<close> have "0 < unat (e - s)" by (simp add: unat_gt_0)
  ultimately have occ: "unat (e - s) = Suc (unat (e - 1 - s))"
    by (simp add: algebra_simps)
  have "s + of_nat (unat (e - 1 - s)) = e - 1" by simp
  then show ?thesis
    unfolding fast_elems_def
    by (simp add: s_def [symmetric] e_def [symmetric] i_def occ)
qed


lemma ring_ok_constructed:
  "ring_ok bd \<Longrightarrow> size' bd \<noteq> 0 \<and> unat (size' bd) \<le> length (circular_buffer' bd)"
  by (auto simp: ring_ok_def)

lemma do_call_buffer_length:
  "do_call c q = Some (out, q') \<Longrightarrow>
   length (circular_buffer' (fast_deque' q')) = length (circular_buffer' (fast_deque' q))"
  by (cases c)
     (auto simp: push_back_def push_front_def try_pop_front_def try_pop_back_def unsafe_clear_def
        reserve_back_alone reserve_front_alone consume_front_alone consume_back_alone Let_def
        construct_in_fast_def extract_from_fast_def
      split: option.splits if_splits list.splits)

lemma do_call_ring_ok:
  assumes "do_call c q = Some (out, q')" and "ring_ok (fast_deque' q)"
  shows "ring_ok (fast_deque' q')"
proof -
  from assms(2) have n3: "3 \<le> unat (size' (fast_deque' q))"
    and occ: "occupancy q \<le> unat (size' (fast_deque' q)) - 2"
    by (simp_all add: ring_ok_def occupancy_def)
  from n3 occ have "within_limit q"
    unfolding within_limit_def max_dist_unat [OF n3] by arith
  with assms(1) have "within_limit q'" by (rule do_call_within_limit)
  with n3 have "occupancy q' \<le> unat (size' (fast_deque' q)) - 2"
    unfolding within_limit_def do_call_size [OF assms(1)] max_dist_unat [OF n3] by arith
  with assms(2) do_call_size [OF assms(1)] do_call_buffer_length [OF assms(1)]
  show ?thesis
    by (simp add: ring_ok_def occupancy_def)
qed

lemma push_back_conserves:
  assumes "push_back x q = Some q'" and ok: "ring_ok (fast_deque' q)"
  shows "resident q' = add_mset x (resident q)"
proof (cases "size' (fast_deque' q) - 3 <
              end' (fast_range' (fast_deque' q)) - start (fast_range' (fast_deque' q))")
  case True
  with assms(1) show ?thesis
    by (auto simp: push_back_def reserve_back_alone Let_def resident_def)
next
  case False
  with assms(1) ring_ok_constructed [OF ok] fast_elems_push_back [OF ok False, of x]
  show ?thesis
    by (auto simp: push_back_def reserve_back_alone Let_def resident_def construct_in_fast_Some)
qed

lemma push_front_conserves:
  assumes "push_front x q = Some q'" and ok: "ring_ok (fast_deque' q)"
  shows "resident q' = add_mset x (resident q)"
proof (cases "size' (fast_deque' q) - 3 <
              end' (fast_range' (fast_deque' q)) - start (fast_range' (fast_deque' q))")
  case True
  with assms(1) show ?thesis
    by (auto simp: push_front_def reserve_front_alone Let_def resident_def)
next
  case False
  with assms(1) ring_ok_constructed [OF ok] fast_elems_push_front [OF ok False, of x]
  show ?thesis
    by (auto simp: push_front_def reserve_front_alone Let_def resident_def construct_in_fast_Some)
qed

lemma try_pop_front_conserves:
  assumes "try_pop_front e0 q = Some (b, e, q')" and ok: "ring_ok (fast_deque' q)"
  shows "if b then resident q = add_mset e (resident q') else q' = q \<and> e = e0"
proof (cases "start (fast_range' (fast_deque' q)) = end' (fast_range' (fast_deque' q))")
  case True
  with assms(1) show ?thesis
    by (auto simp: try_pop_front_def consume_front_alone Let_def resident_def
        split: if_splits list.splits)
next
  case False
  with assms(1) ring_ok_constructed [OF ok] fast_elems_pop_front [OF False]
  show ?thesis
    by (auto simp: try_pop_front_def consume_front_alone Let_def resident_def
        extract_from_fast_Some)
qed

lemma try_pop_back_conserves:
  assumes "try_pop_back e0 q = Some (b, e, q')" and ok: "ring_ok (fast_deque' q)"
  shows "if b then resident q = add_mset e (resident q') else q' = q \<and> e = e0"
proof (cases "start (fast_range' (fast_deque' q)) = end' (fast_range' (fast_deque' q))")
  case True
  with assms(1) show ?thesis
    by (cases "slow_access_elems' q" rule: rev_cases)
       (auto simp: try_pop_back_def consume_back_alone Let_def resident_def
        split: if_splits)
next
  case False
  with assms(1) ring_ok_constructed [OF ok] fast_elems_pop_back [OF False]
  show ?thesis
    by (auto simp: try_pop_back_def consume_back_alone Let_def resident_def
        extract_from_fast_Some)
qed

lemma do_call_conserves:
  assumes "do_call c q = Some (out, q')" and "ring_ok (fast_deque' q)" and "c \<noteq> UnsafeClear"
  shows "popped [out] + resident q' = pushed [c] + resident q"
proof (cases c)
  case (PushBack x)
  with assms show ?thesis by (auto dest: push_back_conserves)
next
  case (PushFront x)
  with assms show ?thesis by (auto dest: push_front_conserves)
next
  case (TryPopFront e0)
  with assms obtain b e where t: "try_pop_front e0 q = Some (b, e, q')" and o: "out = Some (b, e)"
    by auto
  from try_pop_front_conserves [OF t assms(2)] o TryPopFront show ?thesis
    by (cases b) auto
next
  case (TryPopBack e0)
  with assms obtain b e where t: "try_pop_back e0 q = Some (b, e, q')" and o: "out = Some (b, e)"
    by auto
  from try_pop_back_conserves [OF t assms(2)] o TryPopBack show ?thesis
    by (cases b) auto
next
  case UnsafeClear
  with assms show ?thesis by simp
qed

lemma pushed_Cons: "pushed (c # cs) = pushed [c] + pushed cs"
  by (cases c) simp_all

lemma popped_Cons: "popped (out # outs) = popped [out] + popped outs"
  by (cases "(out # outs)" rule: popped.cases) simp_all

lemma run_conserves:
  "run cs q = Some (outs, q') \<Longrightarrow> ring_ok (fast_deque' q) \<Longrightarrow> UnsafeClear \<notin> set cs \<Longrightarrow>
   popped outs + resident q' = pushed cs + resident q"
proof (induction cs arbitrary: q outs)
  case Nil
  then show ?case by simp
next
  case (Cons c cs)
  from Cons.prems(1) obtain out q1 outs1 where
    c: "do_call c q = Some (out, q1)" and r: "run cs q1 = Some (outs1, q')"
    and o: "outs = out # outs1"
    by (auto split: option.splits)
  from Cons.prems have nc: "c \<noteq> UnsafeClear" and ncs: "UnsafeClear \<notin> set cs" by auto
  from do_call_ring_ok [OF c Cons.prems(2)] have ok1: "ring_ok (fast_deque' q1)" .
  from Cons.IH [OF r ok1 ncs] have "popped outs1 + resident q' = pushed cs + resident q1" .
  moreover from do_call_conserves [OF c Cons.prems(2) nc]
  have "popped [out] + resident q1 = pushed [c] + resident q" .
  ultimately have "popped [out] + popped outs1 + resident q' = pushed [c] + pushed cs + resident q"
    by (metis add.assoc add.commute)
  then show ?case
    unfolding o by (subst popped_Cons, subst pushed_Cons)
qed

lemma sequential_conservation:
  assumes "run cs (concurrent_dequeue t0 n) = Some (outs, q)"
    and "n dvd 65536" and "3 \<le> n" and "n < 65536" and "UnsafeClear \<notin> set cs"
  shows "popped outs + resident q = pushed cs"
proof -
  from assms(4) have "unat (of_nat n :: 16 word) = n"
    by (simp add: unat_of_nat)
  with assms(2,3) have ok: "ring_ok (fast_deque' (concurrent_dequeue t0 n))"
    by (simp add: ring_ok_def concurrent_dequeue_def bounded_dequeue_def)
  have "resident (concurrent_dequeue t0 n) = {#}"
    by (simp add: resident_def fast_elems_def concurrent_dequeue_def bounded_dequeue_def)
  with run_conserves [OF assms(1) ok assms(5)] show ?thesis by simp
qed

section \<open>Properties of spawning\<close>

lemma spawned_append [simp]: "spawned (xs @ ys) = spawned xs @ spawned ys"
  by (induction xs rule: spawned.induct) simp_all

lemma spawned_map_Spawn [simp]: "spawned (map (\<lambda>x. Spawn (t x) w) xs) = map (\<lambda>x. (t x, w)) xs"
  by (induction xs) simp_all

lemma sint_count_positive:
  "0 < n \<Longrightarrow> n < 2 ^ 31 \<Longrightarrow> 0 < sint (of_nat n :: 32 word)"
  by (simp add: sint_of_nat_small)

lemma spawn_ftors_loop_all_true:
  "length ftors < 2 ^ 31 \<Longrightarrow>
   spawn_ftors_loop ftors g (of_nat (length ftors)) wake_workers ts =
     ts\<lparr>calls := calls ts @ map (\<lambda>ftor. Spawn \<lparr>ftor_of = ftor, group_of = g\<rparr> True) ftors\<rparr>"
proof (induction ftors arbitrary: ts)
  case Nil
  then show ?case by simp
next
  case (Cons ftor ftors)
  from Cons.prems have "0 < sint (of_nat (length (ftor # ftors)) :: 32 word)"
    by (intro sint_count_positive) simp_all
  moreover from Cons.prems have "length ftors < 2 ^ 31" by simp
  ultimately show ?case
    using Cons.IH [of "tsys_spawn \<lparr>ftor_of = ftor, group_of = g\<rparr> True ts"]
    by (simp add: tsys_spawn_def)
qed

lemma spawn_and_wait_ftors_loop_all_true:
  "length ftors < 2 ^ 31 \<Longrightarrow>
   spawn_and_wait_ftors_loop ftors g (of_nat (length ftors)) ts =
     ts\<lparr>calls := calls ts @ map (\<lambda>ftor. Spawn \<lparr>ftor_of = ftor, group_of = g\<rparr> True) ftors\<rparr>"
proof (induction ftors arbitrary: ts)
  case Nil
  then show ?case by simp
next
  case (Cons ftor ftors)
  from Cons.prems have "0 < sint (of_nat (length (ftor # ftors)) :: 32 word)"
    by (intro sint_count_positive) simp_all
  moreover from Cons.prems have "length ftors < 2 ^ 31" by simp
  ultimately show ?case
    using Cons.IH [of "tsys_spawn \<lparr>ftor_of = ftor, group_of = g\<rparr> True ts"]
    by (simp add: tsys_spawn_def)
qed

text \<open>
  Claim C6. \<open>spawn_ftors\<close> on a non-empty initializer list passes \<open>wake_workers = true\<close>
  with every one of its tasks, whatever its own \<open>wake_workers\<close> argument is, which has no
  influence on the outcome (the list being shorter than \<open>2 ^ 31\<close>, so that its length fits
  the \<^verbatim>\<open>int\<close> \<open>count'\<close>).
\<close>

theorem spawn_ftors_always_wakes:
  assumes "ftors \<noteq> []" and "length ftors < 2 ^ 31"
  shows "calls (spawn_ftors ftors wake_workers ts) =
           calls ts @ map (\<lambda>ftor. Spawn \<lparr>ftor_of = ftor, group_of = current_task_group ts\<rparr> True) ftors \<and>
         map snd (spawned (calls (spawn_ftors ftors wake_workers ts))) =
           map snd (spawned (calls ts)) @ replicate (length ftors) True \<and>
         spawn_ftors ftors wake_workers ts = spawn_ftors ftors (\<not> wake_workers) ts"
  using assms(2)
  by (simp add: spawn_ftors_def spawn_ftors_loop_all_true Let_def comp_def map_replicate_const)

theorem spawn_ftors_always_wakes_witness:
  "map snd (spawned (calls (spawn_ftors [''a'', ''b'', ''c''] False
     \<lparr>current_task_group = no_group, groups_created = 0, calls = []\<rparr>))) = [True, True, True]"
proof -
  have "[''a'', ''b'', ''c''] \<noteq> []" and "length [''a'', ''b'', ''c''] < 2 ^ 31"
    by simp_all
  from spawn_ftors_always_wakes [OF this, of False
      "\<lparr>current_task_group = no_group, groups_created = 0, calls = []\<rparr>",
      THEN conjunct2, THEN conjunct1]
  show ?thesis by (simp add: numeral_3_eq_3)
qed

text \<open>
  Claim C7 says that \<open>spawn_and_wait_ftors\<close> wakes workers for every task but the last.
  The source computes \<^verbatim>\<open>count-- > 0\<close> with \<open>count'\<close> starting at the length of the list, so
  the value is true for the last task as well: on a list of three functors it passes
  \<open>true\<close> three times.
\<close>

theorem spawn_and_wait_ftors_wakes_for_last:
  "map snd (spawned (calls (spawn_and_wait_ftors [''a'', ''b'', ''c''] True
     \<lparr>current_task_group = no_group, groups_created = 0, calls = []\<rparr>))) = [True, True, True]"
  by (simp add: spawn_and_wait_ftors_def enter_worker_def create_def tsys_spawn_def
      busy_wait_on_def exit_worker_def Let_def)

lemma spawn_and_wait_ftors_always_wakes:
  "length ftors < 2 ^ 31 \<Longrightarrow>
   map snd (spawned (calls (spawn_and_wait_ftors ftors wake_workers ts))) =
     map snd (spawned (calls ts)) @ replicate (length ftors) True"
  by (simp add: spawn_and_wait_ftors_def spawn_and_wait_ftors_loop_all_true Let_def comp_def
      map_replicate_const enter_worker_def create_def busy_wait_on_def exit_worker_def)

text \<open>
  Claim C8. The task that \<open>spawn_ftor\<close> creates is in the current task group of the
  calling thread; the task that \<open>spawn_and_wait_ftor\<close> creates is in a newly created
  group whose parent is that current group.
\<close>

theorem spawned_task_inherits_group:
  "calls (spawn_ftor ftor wake_workers ts) =
     calls ts @ [Spawn \<lparr>ftor_of = ftor, group_of = current_task_group ts\<rparr> wake_workers] \<and>
   spawned (calls (spawn_and_wait_ftor ftor ts)) =
     spawned (calls ts) @
     [(\<lparr>ftor_of = ftor, group_of = group (groups_created ts) (current_task_group ts)\<rparr>, False)] \<and>
   parent (group (groups_created ts) (current_task_group ts)) = current_task_group ts \<and>
   fst (create (current_task_group ts) ts) = group (groups_created ts) (current_task_group ts)"
  by (simp add: spawn_ftor_def spawn_and_wait_ftor_def tsys_spawn_def enter_worker_def
      create_def busy_wait_on_def exit_worker_def Let_def)


section \<open>Properties of the reader-writer serializer\<close>

lemma rw_invariant_init: "rw_invariant rw_serializer"
  by (simp add: rw_invariant_def rw_serializer_def)

lemma start_next_writer_invariant:
  "writers_running s = 0 \<Longrightarrow> readers_running s = 0 \<Longrightarrow> running_writes s = [] \<Longrightarrow>
   running_reads s = [] \<Longrightarrow> writers_pending s = length (pending_writes s) \<Longrightarrow>
   started_writes s @ pending_writes s = enqueued_writes s \<Longrightarrow>
   rw_invariant (start_next_writer s)"
  by (cases "pending_writes s") (auto simp: rw_invariant_def start_next_writer_def)

lemma length_remove1_mem: "t \<in> set xs \<Longrightarrow> length (remove1 t xs) = length xs - 1"
  by (simp add: length_remove1)

lemma rw_step_invariant:
  assumes "rw_step e s = Some s'" and "rw_invariant s"
  shows "rw_invariant s'"
proof (cases e)
  case (EnqueueWrite t)
  let ?s1 = "s\<lparr>pending_writes := pending_writes s @ [t],
                writers_pending := writers_pending s + 1,
                enqueued_writes := enqueued_writes s @ [t]\<rparr>"
  show ?thesis
  proof (cases "writers_running s = 0 \<and> readers_running s = 0")
    case True
    with assms(2) have "rw_invariant (start_next_writer ?s1)"
      by (intro start_next_writer_invariant) (auto simp: rw_invariant_def)
    with True EnqueueWrite assms(1) show ?thesis
      by (simp add: writer_enqueue_def Let_def)
  next
    case False
    with EnqueueWrite assms show ?thesis
      by (auto simp: writer_enqueue_def Let_def rw_invariant_def)
  qed
next
  case (EnqueueRead t)
  with assms show ?thesis
    by (auto simp: reader_enqueue_def rw_invariant_def)
next
  case (WriteDone t)
  with assms have t: "t \<in> set (running_writes s)"
    by (auto simp: writer_completion_def split: if_splits)
  with assms(2) have rw: "running_writes s = [t]" and rr: "running_reads s = []"
    by (cases "running_writes s"; auto simp: rw_invariant_def)+
  let ?s1 = "s\<lparr>running_writes := remove1 t (running_writes s),
                writers_running := writers_running s - 1\<rparr>"
  show ?thesis
  proof (cases "pending_writes s = []")
    case True
    with WriteDone assms rw rr show ?thesis
      by (auto simp: writer_completion_def rw_invariant_def Let_def split: if_splits)
  next
    case False
    from assms(2) rw rr have "rw_invariant (start_next_writer ?s1)"
      by (intro start_next_writer_invariant) (auto simp: rw_invariant_def)
    with False WriteDone assms(1) t show ?thesis
      by (simp add: writer_completion_def Let_def)
  qed
next
  case (ReadDone t)
  with assms have t: "t \<in> set (running_reads s)"
    by (auto simp: reader_completion_def split: if_splits)
  with assms(2) have rw: "running_writes s = []"
    by (auto simp: rw_invariant_def)
  from t have len: "length (remove1 t (running_reads s)) = length (running_reads s) - 1"
    by (rule length_remove1_mem)
  let ?s1 = "s\<lparr>running_reads := remove1 t (running_reads s),
                readers_running := readers_running s - 1\<rparr>"
  show ?thesis
  proof (cases "readers_running ?s1 = 0 \<and> pending_writes s \<noteq> []")
    case True
    with assms(2) rw len have "rw_invariant (start_next_writer ?s1)"
      by (intro start_next_writer_invariant) (auto simp: rw_invariant_def)
    with True ReadDone assms(1) t show ?thesis
      by (simp add: reader_completion_def Let_def)
  next
    case False
    with ReadDone assms rw t len show ?thesis
      by (auto simp: reader_completion_def rw_invariant_def Let_def)
  qed
qed

lemma rw_run_invariant:
  "rw_run es s = Some s' \<Longrightarrow> rw_invariant s \<Longrightarrow> rw_invariant s'"
proof (induction es arbitrary: s)
  case Nil
  then show ?case by simp
next
  case (Cons e es)
  then show ?case
    by (auto split: option.splits dest: rw_step_invariant)
qed

text \<open>
  Claim C1. Whatever READ and WRITE tasks are enqueued and in whatever order they
  complete, at most one WRITE task is running, no READ task is running while a WRITE task
  is, and the WRITE tasks handed to the executor so far, in that order, followed by those
  still waiting, are the WRITE tasks in the order they were enqueued.
\<close>

theorem rw_serializer_guarantees:
  assumes "rw_run es rw_serializer = Some s"
  shows "length (running_writes s) \<le> 1 \<and>
         (running_writes s = [] \<or> running_reads s = []) \<and>
         started_writes s @ pending_writes s = enqueued_writes s"
proof -
  from assms rw_invariant_init have "rw_invariant s"
    by (rule rw_run_invariant)
  then show ?thesis by (simp add: rw_invariant_def)
qed


theorem rw_serializer_guarantees_witness:
  "map_option running_writes
     (rw_run [EnqueueRead 1, EnqueueWrite 2, EnqueueRead 3, EnqueueWrite 4, ReadDone 1, WriteDone 2]
        (rw_serializer :: nat rw_impl)) = Some [4] \<and>
   map_option running_reads
     (rw_run [EnqueueRead 1, EnqueueWrite 2, EnqueueRead 3, EnqueueWrite 4, ReadDone 1, WriteDone 2]
        (rw_serializer :: nat rw_impl)) = Some [] \<and>
   map_option started_writes
     (rw_run [EnqueueRead 1, EnqueueWrite 2, EnqueueRead 3, EnqueueWrite 4, ReadDone 1, WriteDone 2]
        (rw_serializer :: nat rw_impl)) = Some [2, 4]"
proof -
  have r: "rw_run [EnqueueRead 1, EnqueueWrite 2, EnqueueRead 3, EnqueueWrite 4, ReadDone 1, WriteDone 2]
             (rw_serializer :: nat rw_impl) =
           Some \<lparr>writers_pending = 0, writers_running = 1, readers_running = 0,
                 pending_writes = [], pending_reads = [3],
                 running_writes = [4], running_reads = [],
                 enqueued_writes = [2, 4], started_writes = [2, 4]\<rparr>"
    by (simp add: rw_serializer_def writer_enqueue_def reader_enqueue_def writer_completion_def
        reader_completion_def start_next_writer_def Let_def)
  from rw_serializer_guarantees [OF r] r show ?thesis
    by simp
qed

end
